theory Spec2Isabelle
  imports Main "HOL-Library.Sublist"
begin

section \<open>The Firefox Desktop extension runner (firefox-desktop.js)\<close>

text \<open>
  The runner is a JavaScript class whose methods are asynchronous and talk to three
  injected collaborators: \<open>firefoxApp\<close> (profiles, proxy installs, launching the
  browser), \<open>firefoxClient\<close> (the remote-debugging session) and the cleanup callbacks
  that users register. The embedding is explicit state passing:
  \<^item> the fields of \<open>this\<close> are the record \<open>runner\<close>;
  \<^item> everything the runner does to the outside world is appended, with its outcome, to
    a \<open>trace\<close> of events; a collaborator is a function of the trace so far and of its
    arguments, so its answers may change over time;
  \<^item> a rejected promise or a \<open>throw\<close> is \<open>Inl\<close> of an \<open>error\<close>; a method returns
    its result together with the updated runner and trace;
  \<^item> every \<open>await\<close> is taken to settle (the source has no timeout: a collaborator
    that never settles blocks the method, and nothing is returned at all).
\<close>

subsection \<open>Data\<close>

type_synonym addon_id = string
type_synonym profile = nat
type_synonym process = nat
type_synonym session = nat
type_synonym callback = nat

text \<open>
  The error classes of \<open>errors.js\<close> that the runner constructs or tests with
  \<open>instanceof\<close>, a \<open>TypeError\<close> for a property read on \<open>undefined\<close>, and
  \<open>OtherError\<close> for any other \<open>Error\<close> a collaborator rejects with. JavaScript lets
  a promise be rejected, and a function throw, with any value: \<open>NotAnError\<close> is such a
  value that is no instance of \<open>Error\<close> (a string, a plain object, \<open>undefined\<close>).
  The aggregate carries the JavaScript \<open>Map\<close> from source directory to error as an
  association list in insertion order.
\<close>

datatype error =
    WebExtError string
  | RemoteTempInstallNotSupported string
  | MultiExtensionsReloadError "(string \<times> error) list"
  | TypeError string
  | OtherError string
  | NotAnError string


record extension =
  sourceDir :: string
  manifestData :: string

datatype start_url = Url string | Urls "string list"

record params =
  customPrefs :: "(string \<times> string) list"
  extensions :: "extension list"
  keepProfileChanges :: bool
  preInstall :: bool
  profilePath :: "string option"
  browserConsole :: bool
  devtools :: bool
  firefoxBinary :: "string option"
  startUrl :: "start_url option"
  args :: "string list option"

record running_info =
  firefox :: "process option"
  debuggerPort :: nat

text \<open>
  One event per call to a collaborator, with the outcome the call settled to, and one
  per \<open>log.error\<close>. (\<open>log.debug\<close> lines are not recorded.)
\<close>

datatype event =
    UseProfile string "error + profile"
  | CopyProfile string "error + profile"
  | CreateProfile "error + profile"
  | InstallExtension string profile "error option"
  | Run "string list" "error + running_info"
  | OnClose process
  | FirefoxClient nat "error + session"
  | InstallTemporaryAddon session string bool "error + addon_id option"
  | ReloadAddon session addon_id "error option"
  | Kill process
  | CleanupCb callback "error option"
  | LogError error

type_synonym trace = "event list"

text \<open>
  The collaborators. \<open>installTemporaryAddon\<close> resolves to the \<open>addon.id\<close> of its
  result (\<open>None\<close> when the id is \<open>undefined\<close>); \<open>cleanupCb\<close> says whether calling a
  registered callback returns (\<open>None\<close>) or throws. Callbacks are taken not to call back
  into the runner while the close observer iterates.
\<close>

record collaborators =
  useProfile :: "trace \<Rightarrow> string \<Rightarrow> (string \<times> string) list \<Rightarrow> error + profile"
  copyProfile :: "trace \<Rightarrow> string \<Rightarrow> (string \<times> string) list \<Rightarrow> error + profile"
  createProfile :: "trace \<Rightarrow> (string \<times> string) list \<Rightarrow> error + profile"
  installExtension :: "trace \<Rightarrow> extension \<Rightarrow> profile \<Rightarrow> error option"
  firefoxApp_run :: "trace \<Rightarrow> profile option \<Rightarrow> string option \<Rightarrow> string list
                       \<Rightarrow> extension list \<Rightarrow> bool \<Rightarrow> error + running_info"
  firefoxClient :: "trace \<Rightarrow> nat \<Rightarrow> error + session"
  installTemporaryAddon :: "trace \<Rightarrow> session \<Rightarrow> string \<Rightarrow> bool \<Rightarrow> error + addon_id option"
  reloadAddon :: "trace \<Rightarrow> session \<Rightarrow> addon_id \<Rightarrow> error option"
  cleanupCb :: "trace \<Rightarrow> callback \<Rightarrow> error option"

text \<open>
  The fields of the class. \<open>reloadableExtensions\<close> is a JavaScript \<open>Map\<close> and
  \<open>cleanupCallbacks\<close> a JavaScript \<open>Set\<close>; both iterate in insertion order, so they are
  lists, updated by \<open>map_set\<close> and \<open>set_add\<close>.
\<close>

record runner =
  params :: params
  profile :: "profile option"
  reloadableExtensions :: "(string \<times> addon_id) list"
  remoteFirefox :: "session option"
  runningInfo :: "running_info option"
  cleanupCallbacks :: "callback list"

record reload_result =
  runnerName :: string
  result_sourceDir :: "string option"
  reloadError :: "error option"

subsection \<open>JavaScript \<open>Map\<close> and \<open>Set\<close>\<close>

text \<open>\<open>Map.prototype.set\<close>: an existing key keeps its place, a new key goes last.\<close>

fun map_set :: "('k \<times> 'v) list \<Rightarrow> 'k \<Rightarrow> 'v \<Rightarrow> ('k \<times> 'v) list" where
  "map_set [] k v = [(k, v)]"
| "map_set ((k', v') # m) k v = (if k' = k then (k, v) # m else (k', v') # map_set m k v)"

text \<open>\<open>Map.prototype.get\<close>; \<open>None\<close> is \<open>undefined\<close>.\<close>

definition map_get :: "('k \<times> 'v) list \<Rightarrow> 'k \<Rightarrow> 'v option" where
  "map_get m k = map_of m k"

text \<open>\<open>Set.prototype.add\<close>: a member is not added again, a new value goes last.\<close>

definition set_add :: "'a list \<Rightarrow> 'a \<Rightarrow> 'a list" where
  "set_add s x = (if x \<in> set s then s else s @ [x])"

subsection \<open>Methods\<close>

definition constructor :: "params \<Rightarrow> runner" where
  "constructor p =
     \<lparr>params = p, profile = None, reloadableExtensions = [], remoteFirefox = None,
      runningInfo = None, cleanupCallbacks = []\<rparr>"

definition getName :: string where
  "getName = ''Firefox Desktop''"

text \<open>\<open>await this.remoteFirefox.reloadAddon(addonId)\<close>, inside the \<open>try\<close>.\<close>

definition call_reloadAddon ::
  "collaborators \<Rightarrow> runner \<Rightarrow> addon_id \<Rightarrow> trace \<Rightarrow> (error + unit) \<times> trace" where
  "call_reloadAddon env r addonId w =
     (case remoteFirefox r of
        None \<Rightarrow> (Inl (TypeError ''Cannot read properties of undefined (reading 'reloadAddon')''), w)
      | Some s \<Rightarrow>
          (case reloadAddon env w s addonId of
             Some e \<Rightarrow> (Inl e, w @ [ReloadAddon s addonId (Some e)])
           | None \<Rightarrow> (Inr (), w @ [ReloadAddon s addonId None])))"

definition not_reloadable :: "string \<Rightarrow> error" where
  "not_reloadable extensionSourceDir =
     WebExtError (''Extension not reloadable: '' @
                  ''no addonId has been mapped to \"'' @ extensionSourceDir @ ''\"'')"

text \<open>\<open>!addonId\<close>: the key is absent, or the recorded id is the empty string.\<close>

definition reloadExtensionBySourceDir ::
  "collaborators \<Rightarrow> runner \<Rightarrow> string \<Rightarrow> trace \<Rightarrow> (error + reload_result list) \<times> trace" where
  "reloadExtensionBySourceDir env r extensionSourceDir w =
     (case map_get (reloadableExtensions r) extensionSourceDir of
        None \<Rightarrow>
          (Inr [\<lparr>runnerName = getName, result_sourceDir = Some extensionSourceDir,
                 reloadError = Some (not_reloadable extensionSourceDir)\<rparr>], w)
      | Some addonId \<Rightarrow>
          if addonId = [] then
            (Inr [\<lparr>runnerName = getName, result_sourceDir = Some extensionSourceDir,
                   reloadError = Some (not_reloadable extensionSourceDir)\<rparr>], w)
          else
            (case call_reloadAddon env r addonId w of
               (Inl e, w') \<Rightarrow>
                 (Inr [\<lparr>runnerName = getName, result_sourceDir = Some extensionSourceDir,
                        reloadError = Some e\<rparr>], w')
             | (Inr u, w') \<Rightarrow>
                 (Inr [\<lparr>runnerName = getName, result_sourceDir = Some extensionSourceDir,
                        reloadError = None\<rparr>], w')))"



definition registerCleanup :: "runner \<Rightarrow> callback \<Rightarrow> runner" where
  "registerCleanup r fn = r\<lparr>cleanupCallbacks := set_add (cleanupCallbacks r) fn\<rparr>"

text \<open>\<open>kill()\<close> sends the signal and returns.\<close>

definition exit :: "runner \<Rightarrow> trace \<Rightarrow> (error + unit) \<times> runner \<times> trace" where
  "exit r w =
     (case runningInfo r of
        None \<Rightarrow> (Inl (WebExtError ''No firefox instance is currently running''), r, w)
      | Some ri \<Rightarrow>
          (case firefox ri of
             None \<Rightarrow> (Inl (WebExtError ''No firefox instance is currently running''), r, w)
           | Some p \<Rightarrow> (Inr (), r, w @ [Kill p])))"

text \<open>\<open>if (x)\<close> on an optional string: set and not empty.\<close>

definition truthy :: "string option \<Rightarrow> bool" where
  "truthy s = (case s of None \<Rightarrow> False | Some v \<Rightarrow> v \<noteq> [])"

text \<open>The proxy installs of \<open>setupProfileDir\<close>; the first rejection ends the loop.\<close>

fun preInstall_loop ::
  "collaborators \<Rightarrow> profile \<Rightarrow> extension list \<Rightarrow> trace \<Rightarrow> (error + unit) \<times> trace" where
  "preInstall_loop env prof [] w = (Inr (), w)"
| "preInstall_loop env prof (x # xs) w =
     (case installExtension env w x prof of
        Some e \<Rightarrow> (Inl e, w @ [InstallExtension (sourceDir x) prof (Some e)])
      | None \<Rightarrow> preInstall_loop env prof xs (w @ [InstallExtension (sourceDir x) prof None]))"

text \<open>
  The first half of \<open>setupProfileDir\<close>: the profile is used in place, copied or
  created.
\<close>

definition make_profile ::
  "collaborators \<Rightarrow> params \<Rightarrow> trace \<Rightarrow> (error + profile) \<times> trace" where
  "make_profile env p w =
     (if truthy (profilePath p) then
        (if keepProfileChanges p then
           (let res = useProfile env w (the (profilePath p)) (customPrefs p)
            in (res, w @ [UseProfile (the (profilePath p)) res]))
         else
           (let res = copyProfile env w (the (profilePath p)) (customPrefs p)
            in (res, w @ [CopyProfile (the (profilePath p)) res])))
      else
        (let res = createProfile env w (customPrefs p)
         in (res, w @ [CreateProfile res])))"

definition setupProfileDir ::
  "collaborators \<Rightarrow> runner \<Rightarrow> trace \<Rightarrow> (error + unit) \<times> runner \<times> trace" where
  "setupProfileDir env r w =
     (case make_profile env (params r) w of
        (Inl e, w1) \<Rightarrow> (Inl e, r, w1)
      | (Inr prof, w1) \<Rightarrow>
          if preInstall (params r) then
            (case preInstall_loop env prof (extensions (params r)) w1 of
               (res, w2) \<Rightarrow> (res, r\<lparr>profile := Some prof\<rparr>, w2))
          else (Inr (), r\<lparr>profile := Some prof\<rparr>, w1))"

text \<open>The arguments of the browser binary, in the order they are pushed.\<close>

definition binaryArgs :: "params \<Rightarrow> string list" where
  "binaryArgs p =
     (if browserConsole p then [''-jsconsole''] else []) @
     (case startUrl p of
        None \<Rightarrow> []
      | Some (Url u) \<Rightarrow> if u = [] then [] else [''--url'', u]
      | Some (Urls us) \<Rightarrow> concat (map (\<lambda>url. [''--url'', url]) us)) @
     (case args p of None \<Rightarrow> [] | Some a \<Rightarrow> a)"

text \<open>
  The \<open>catch\<close> of the install loop: a \<open>RemoteTempInstallNotSupported\<close> is replaced by
  guidance, anything else is thrown again.
\<close>

definition install_catch :: "error \<Rightarrow> error" where
  "install_catch err =
     (case err of
        RemoteTempInstallNotSupported m \<Rightarrow>
          WebExtError (''Temporary add-on installation is not supported in this version'' @
                       '' of Firefox (you need Firefox 49 or higher). For older Firefox'' @
                       '' versions, use --pre-install'')
      | _ \<Rightarrow> err)"

text \<open>\<open>!addonId\<close> on the id of an install result.\<close>

definition missing_addonId :: "addon_id option \<Rightarrow> bool" where
  "missing_addonId a = (case a of None \<Rightarrow> True | Some i \<Rightarrow> i = [])"

text \<open>The loop that installs the temporary addons over the session \<open>s\<close>.\<close>

fun install_loop ::
  "collaborators \<Rightarrow> session \<Rightarrow> bool \<Rightarrow> extension list \<Rightarrow> runner \<Rightarrow> trace
     \<Rightarrow> (error + unit) \<times> runner \<times> trace" where
  "install_loop env s dt [] r w = (Inr (), r, w)"
| "install_loop env s dt (x # xs) r w =
     (let res = installTemporaryAddon env w s (sourceDir x) dt;
          w' = w @ [InstallTemporaryAddon s (sourceDir x) dt res]
      in case res of
           Inl err \<Rightarrow> (Inl (install_catch err), r, w')
         | Inr addonId \<Rightarrow>
             if missing_addonId addonId then
               (Inl (install_catch (WebExtError
                  ''Unexpected missing addonId in the installAsTemporaryAddon result'')), r, w')
             else
               install_loop env s dt xs
                 (r\<lparr>reloadableExtensions :=
                      map_set (reloadableExtensions r) (sourceDir x) (the addonId)\<rparr>) w')"

definition startFirefoxInstance ::
  "collaborators \<Rightarrow> runner \<Rightarrow> trace \<Rightarrow> (error + unit) \<times> runner \<times> trace" where
  "startFirefoxInstance env r w =
     (let p = params r;
          launched = firefoxApp_run env w (profile r) (firefoxBinary p) (binaryArgs p)
                       (extensions p) (devtools p);
          w1 = w @ [Run (binaryArgs p) launched]
      in case launched of
           Inl e \<Rightarrow> (Inl e, r, w1)
         | Inr ri \<Rightarrow>
             (let r1 = r\<lparr>runningInfo := Some ri\<rparr>
              in case firefox ri of
                   None \<Rightarrow>
                     (Inl (TypeError ''Cannot read properties of undefined (reading 'on')''),
                      r1, w1)
                 | Some proc \<Rightarrow>
                     (let w2 = w1 @ [OnClose proc]
                      in if preInstall p then (Inr (), r1, w2)
                         else
                           (let conn = firefoxClient env w2 (debuggerPort ri);
                                w3 = w2 @ [FirefoxClient (debuggerPort ri) conn]
                            in case conn of
                                 Inl e \<Rightarrow> (Inl e, r1, w3)
                               | Inr s \<Rightarrow>
                                   install_loop env s (devtools p) (extensions p)
                                     (r1\<lparr>remoteFirefox := Some s\<rparr>) w3))))"

definition run :: "collaborators \<Rightarrow> runner \<Rightarrow> trace \<Rightarrow> (error + unit) \<times> runner \<times> trace" where
  "run env r w =
     (case setupProfileDir env r w of
        (Inl e, r', w') \<Rightarrow> (Inl e, r', w')
      | (Inr u, r', w') \<Rightarrow> startFirefoxInstance env r' w')"

text \<open>
  The observer of the process's \<open>close\<close> event: each callback of the set is called inside
  its own \<open>try\<close>; a thrown error is logged and the loop goes on.
\<close>

fun cleanup_loop :: "collaborators \<Rightarrow> callback list \<Rightarrow> trace \<Rightarrow> trace" where
  "cleanup_loop env [] w = w"
| "cleanup_loop env (cleanupCb' # rest) w =
     (case cleanupCb env w cleanupCb' of
        None \<Rightarrow> cleanup_loop env rest (w @ [CleanupCb cleanupCb' None])
      | Some e \<Rightarrow> cleanup_loop env rest (w @ [CleanupCb cleanupCb' (Some e), LogError e]))"

definition on_close :: "collaborators \<Rightarrow> runner \<Rightarrow> trace \<Rightarrow> (error + unit) \<times> trace" where
  "on_close env r w = (Inr (), cleanup_loop env (cleanupCallbacks r) w)"

section \<open>The path filter (file-filter.js)\<close>

text \<open>
  \<open>isSubPath\<close> and \<open>FileFilter\<close> are a few lines around two libraries that are not
  part of the repository: the \<open>path\<close> module of Node.js and \<open>multimatch\<close> (which
  calls \<open>minimatch\<close>, version 3). What the filter does is what these libraries do, so
  both are modelled here from their documentation and their published sources, as far as
  the filter uses them:
  \<^item> \<open>path\<close> in its POSIX variant (\<open>path.sep\<close> is \<open>/\<close>), with the working directory
    \<open>process.cwd()\<close> as the parameter \<open>cwd\<close>. Node scans characters; the functions
    below split at \<open>/\<close>, work on the segments and join again, which gives the same
    strings;
  \<^item> \<open>minimatch\<close> with its default options (in particular \<open>dot: false\<close>), for
    patterns made of literal characters, \<open>*\<close>, \<open>?\<close> and the segment \<open>**\<close>. On every
    other pattern (brace expansion, character classes, extglobs, escapes, a pattern that
    the library trims or refuses) the answer of the library is the parameter \<open>lib\<close> of
    the functions below: it returns whether the path matches, or the error the library
    throws.

  A character is one code unit of the JavaScript string. The type \<open>char\<close> has 256
  values: strings with a code unit above 255 are outside the model.
\<close>

subsection \<open>Strings\<close>

abbreviation sep :: char where
  "sep \<equiv> CHR ''/''"

text \<open>\<open>String.prototype.split\<close> at one character, and \<open>Array.prototype.join\<close> with \<open>/\<close>.\<close>

fun split_on :: "char \<Rightarrow> string \<Rightarrow> string list" where
  "split_on c [] = [[]]"
| "split_on c (x # xs) =
     (if x = c then [] # split_on c xs
      else (case split_on c xs of [] \<Rightarrow> [[x]] | s # ss \<Rightarrow> (x # s) # ss))"

fun join :: "string list \<Rightarrow> string" where
  "join [] = []"
| "join [s] = s"
| "join (s # t # ss) = s @ sep # join (t # ss)"

text \<open>\<open>String.prototype.startsWith\<close>.\<close>

definition startsWith :: "string \<Rightarrow> string \<Rightarrow> bool" where
  "startsWith s p = (take (length p) s = p)"

subsection \<open>Node's \<open>path\<close>, POSIX\<close>

definition isAbsolute :: "string \<Rightarrow> bool" where
  "isAbsolute p = (p \<noteq> [] \<and> hd p = sep)"

text \<open>
  One step of \<open>normalizeString\<close>: empty segments and \<open>.\<close> are dropped, \<open>..\<close> removes
  the segment before it, or is kept when there is none to remove and the path may climb
  above its root.
\<close>

definition norm_step :: "bool \<Rightarrow> string list \<Rightarrow> string \<Rightarrow> string list" where
  "norm_step allowAboveRoot res seg =
     (if seg = [] \<or> seg = ''.'' then res
      else if seg = ''..'' then
        (if res \<noteq> [] \<and> last res \<noteq> ''..'' then butlast res
         else if allowAboveRoot then res @ [''..''] else res)
      else res @ [seg])"

definition norm_segs :: "bool \<Rightarrow> string list \<Rightarrow> string \<Rightarrow> string list" where
  "norm_segs allowAboveRoot res path = foldl (norm_step allowAboveRoot) res (split_on sep path)"

definition normalizeString :: "string \<Rightarrow> bool \<Rightarrow> string" where
  "normalizeString path allowAboveRoot = join (norm_segs allowAboveRoot [] path)"

text \<open>
  The loop of \<open>path.resolve\<close>, over the arguments from the last to the first and then the
  working directory: it stops at the first absolute path.
\<close>

fun resolve_args :: "string list \<Rightarrow> string \<Rightarrow> string \<times> bool" where
  "resolve_args [] resolvedPath = (resolvedPath, False)"
| "resolve_args (p # ps) resolvedPath =
     (if p = [] then resolve_args ps resolvedPath
      else if hd p = sep then (p @ sep # resolvedPath, True)
      else resolve_args ps (p @ sep # resolvedPath))"

definition path_resolve :: "string \<Rightarrow> string list \<Rightarrow> string" where
  "path_resolve cwd paths =
     (case resolve_args (rev paths @ [cwd]) [] of
        (resolvedPath, resolvedAbsolute) \<Rightarrow>
          (let n = normalizeString resolvedPath (\<not> resolvedAbsolute)
           in if resolvedAbsolute then sep # n else if n \<noteq> [] then n else ''.''))"

definition path_normalize :: "string \<Rightarrow> string" where
  "path_normalize p =
     (if p = [] then ''.''
      else
        (let n = normalizeString p (\<not> isAbsolute p)
         in if n = [] then (if isAbsolute p then ''/'' else if last p = sep then ''./'' else ''.'')
            else (if isAbsolute p then [sep] else []) @ n @ (if last p = sep then [sep] else [])))"

definition path_join :: "string list \<Rightarrow> string" where
  "path_join paths =
     (let joined = join (filter (\<lambda>p. p \<noteq> []) paths)
      in if joined = [] then ''.'' else path_normalize joined)"

text \<open>The segments of a resolved path: \<open>/a/b\<close> has \<open>a\<close> and \<open>b\<close>, the root has none.\<close>

definition segments :: "string \<Rightarrow> string list" where
  "segments p = filter (\<lambda>s. s \<noteq> []) (split_on sep p)"

text \<open>
  \<open>path.relative\<close>: both paths are resolved; one \<open>..\<close> for every segment of \<open>from\<close>
  after the common ones, then the segments of \<open>to\<close> after the common ones.
\<close>

definition path_relative :: "string \<Rightarrow> string \<Rightarrow> string \<Rightarrow> string" where
  "path_relative cwd from to =
     (if from = to then []
      else
        (let from' = path_resolve cwd [from];
             to' = path_resolve cwd [to]
         in if from' = to' then []
            else
              (let fs = segments from';
                   ts = segments to';
                   n = length (longest_common_prefix fs ts)
               in join (replicate (length fs - n) ''..'' @ drop n ts))))"

subsection \<open>\<open>isSubPath\<close>\<close>

definition isSubPath :: "string \<Rightarrow> string \<Rightarrow> string \<Rightarrow> bool" where
  "isSubPath cwd src target =
     (let relate = path_relative cwd src target
      in if relate = [] then False
         else if relate = ''..'' then False
         else \<not> startsWith relate (''..'' @ [sep]))"

subsection \<open>\<open>minimatch\<close> and \<open>multimatch\<close>\<close>

text \<open>
  A pattern is split at runs of \<open>/\<close> (the regular expression \<open>/\<bslash>/+/\<close>), and so is the
  path it is matched against. A segment \<open>**\<close> is the globstar; a segment with \<open>*\<close> or
  \<open>?\<close> becomes a regular expression; any other segment is compared as a string.
\<close>

fun squeeze :: "string \<Rightarrow> string" where
  "squeeze [] = []"
| "squeeze (c # cs) =
     (if c = sep \<and> cs \<noteq> [] \<and> hd cs = sep then squeeze cs else c # squeeze cs)"

definition slash_split :: "string \<Rightarrow> string list" where
  "slash_split s = split_on sep (squeeze s)"

text \<open>
  The patterns that are modelled. The library trims a pattern (\<open>js_space\<close> has the
  characters below 256 that \<open>String.prototype.trim\<close> removes), reads a leading \<open>!\<close> or
  \<open>#\<close> as a negation or a comment, opens a character class, a brace expansion or an
  extglob at \<open>[\<close>, \<open>{\<close> and \<open>(\<close>, reads the backslash as an escape, and throws on
  a pattern of more than 65536 characters. A modelled pattern is an absolute path with
  none of this; the characters \<open>]\<close>, \<open>}\<close> and \<open>)\<close> stand for themselves in it, as
  nothing is open that they could close.
\<close>

definition js_space :: "char \<Rightarrow> bool" where
  "js_space c =
     (c \<in> set [CHR 0x09, CHR 0x0A, CHR 0x0B, CHR 0x0C, CHR 0x0D, CHR 0x20, CHR 0xA0])"

definition other_syntax :: "char \<Rightarrow> bool" where
  "other_syntax c = (c \<in> set (''[{('' @ [CHR 0x5C]))"

definition modelled :: "string \<Rightarrow> bool" where
  "modelled pattern =
     (isAbsolute pattern \<and> length pattern \<le> 65536 \<and> \<not> js_space (last pattern)
      \<and> list_all (\<lambda>c. \<not> other_syntax c) pattern)"

datatype glob_part = GLOBSTAR | Literal string | Wildcard string

definition has_magic :: "string \<Rightarrow> bool" where
  "has_magic seg = (CHR ''*'' \<in> set seg \<or> CHR ''?'' \<in> set seg)"

definition parse :: "string \<Rightarrow> glob_part" where
  "parse seg =
     (if seg = ''**'' then GLOBSTAR
      else if has_magic seg then Wildcard seg
      else Literal seg)"

text \<open>The regular expression of a segment: \<open>*\<close> is any run of characters, \<open>?\<close> is one.\<close>

fun wild_match :: "string \<Rightarrow> string \<Rightarrow> bool" where
  "wild_match [] [] = True"
| "wild_match [] (c # cs) = False"
| "wild_match (p # ps) [] = (p = CHR ''*'' \<and> wild_match ps [])"
| "wild_match (p # ps) (c # cs) =
     (if p = CHR ''*'' then wild_match ps (c # cs) \<or> wild_match (p # ps) cs
      else if p = CHR ''?'' then wild_match ps cs
      else p = c \<and> wild_match ps cs)"

text \<open>A name that \<open>*\<close>, \<open>?\<close> and \<open>**\<close> do not match without the option \<open>dot\<close>.\<close>

definition dotty :: "string \<Rightarrow> bool" where
  "dotty f = (f \<noteq> [] \<and> hd f = CHR ''.'')"

text \<open>
  The regular expression of a segment with magic begins with \<open>(?=.)\<close>: it matches no
  empty name and no name that begins with a line terminator, which \<open>.\<close> does not match
  (below 256 these are the line feed and the carriage return). When the segment begins
  with \<open>*\<close> or \<open>?\<close> the expression begins with \<open>(?!\<bslash>.)\<close> as well, and matches no
  name that begins with a dot.
\<close>

definition line_terminator :: "char \<Rightarrow> bool" where
  "line_terminator c = (c = CHR 0x0A \<or> c = CHR 0x0D)"

fun part_match :: "glob_part \<Rightarrow> string \<Rightarrow> bool" where
  "part_match GLOBSTAR f = False"
| "part_match (Literal p) f = (f = p)"
| "part_match (Wildcard p) f =
     (f \<noteq> [] \<and> \<not> line_terminator (hd f)
      \<and> \<not> ((hd p = CHR ''*'' \<or> hd p = CHR ''?'') \<and> dotty f) \<and> wild_match p f)"

text \<open>
  \<open>matchOne\<close> of minimatch, without \<open>partial\<close>. A globstar that ends the pattern
  swallows what is left of the path unless a name there begins with a dot; elsewhere it
  tries the rest of the pattern at every position, going past names that do not begin
  with a dot. A pattern that is used up matches when the path is used up too, or has only
  an empty last segment left.
\<close>

fun matchOne :: "string list \<Rightarrow> glob_part list \<Rightarrow> bool" where
  "matchOne fs [] = (fs = [] \<or> fs = [[]])"
| "matchOne [] (p # ps) = False"
| "matchOne (f # fs) (GLOBSTAR # ps) =
     (if ps = [] then list_all (\<lambda>x. \<not> dotty x) (f # fs)
      else (matchOne (f # fs) ps \<or> (\<not> dotty f \<and> matchOne fs (GLOBSTAR # ps))))"
| "matchOne (f # fs) (p # ps) = (part_match p f \<and> matchOne fs ps)"

text \<open>
  \<open>minimatch(path, pattern)\<close>: the model on a modelled pattern, the library's own
  answer on any other.
\<close>

type_synonym matcher = "string \<Rightarrow> string \<Rightarrow> error + bool"

definition minimatch :: "matcher \<Rightarrow> string \<Rightarrow> string \<Rightarrow> error + bool" where
  "minimatch lib f pattern =
     (if modelled pattern
      then Inr (matchOne (slash_split f) (map parse (slash_split pattern)))
      else lib f pattern)"

text \<open>\<open>minimatch.match(list, pattern)\<close> on the list of one path.\<close>

definition minimatch_match :: "matcher \<Rightarrow> string \<Rightarrow> string \<Rightarrow> error + string list" where
  "minimatch_match lib item pattern =
     (case minimatch lib item pattern of
        Inl e \<Rightarrow> Inl e
      | Inr hit \<Rightarrow> Inr (if hit then [item] else []))"

text \<open>
  \<open>multimatch\<close> of one path: the patterns are taken in order; a pattern that matches adds
  the path to the result, a pattern with a leading \<open>!\<close> that matches removes it. An
  error thrown by the library ends the loop.
\<close>

definition array_union :: "string list \<Rightarrow> string list \<Rightarrow> string list" where
  "array_union a b = rev (remdups (rev (a @ b)))"

definition array_differ :: "string list \<Rightarrow> string list \<Rightarrow> string list" where
  "array_differ a b = filter (\<lambda>x. x \<notin> set b) a"

fun multimatch_loop ::
  "matcher \<Rightarrow> string \<Rightarrow> string list \<Rightarrow> string list \<Rightarrow> error + string list" where
  "multimatch_loop lib item result [] = Inr result"
| "multimatch_loop lib item result (pattern # patterns) =
     (if pattern \<noteq> [] \<and> hd pattern = CHR ''!'' then
        (case minimatch_match lib item (tl pattern) of
           Inl e \<Rightarrow> Inl e
         | Inr m \<Rightarrow> multimatch_loop lib item (array_differ result m) patterns)
      else
        (case minimatch_match lib item pattern of
           Inl e \<Rightarrow> Inl e
         | Inr m \<Rightarrow> multimatch_loop lib item (array_union result m) patterns))"

definition multimatch :: "matcher \<Rightarrow> string \<Rightarrow> string list \<Rightarrow> error + string list" where
  "multimatch lib item patterns =
     (if patterns = [] then Inr [] else multimatch_loop lib item [] patterns)"

subsection \<open>\<open>FileFilter\<close>\<close>

record file_filter =
  filesToIgnore :: "string list"
  filter_sourceDir :: string

definition baseIgnoredPatterns :: "string list" where
  "baseIgnoredPatterns =
     [''**/*.xpi'', ''**/*.zip'', ''**/.*'', ''**/.*/**/*'',
      ''**/node_modules'', ''**/node_modules/**/*'']"

definition resolveWithSourceDir :: "string \<Rightarrow> file_filter \<Rightarrow> string \<Rightarrow> string" where
  "resolveWithSourceDir cwd ff file = path_resolve cwd [filter_sourceDir ff, file]"

fun addToIgnoreList :: "string \<Rightarrow> file_filter \<Rightarrow> string list \<Rightarrow> file_filter" where
  "addToIgnoreList cwd ff [] = ff"
| "addToIgnoreList cwd ff (file # files) =
     (if file \<noteq> [] \<and> hd file = CHR ''!'' then
        addToIgnoreList cwd
          (ff\<lparr>filesToIgnore :=
                filesToIgnore ff @ [CHR ''!'' # resolveWithSourceDir cwd ff (tl file)]\<rparr>) files
      else
        addToIgnoreList cwd
          (ff\<lparr>filesToIgnore := filesToIgnore ff @ [resolveWithSourceDir cwd ff file]\<rparr>) files)"

text \<open>
  The constructor, with the options as arguments: the base patterns (the list above by
  default), \<open>ignoreFiles\<close> (empty by default; a \<open>null\<close> is skipped, which adds as
  little as the empty list), the source directory and the artifacts directory, if any.
  \<open>artifactsDir && ...\<close> holds for a directory that is given and not the empty
  string.
\<close>

definition FileFilter ::
  "string \<Rightarrow> string list \<Rightarrow> string list \<Rightarrow> string \<Rightarrow> string option \<Rightarrow> file_filter" where
  "FileFilter cwd basePatterns ignoreFiles srcDir artifactsDir =
     (let sourceDir' = path_resolve cwd [srcDir];
          ff0 = \<lparr>filesToIgnore = [], filter_sourceDir = sourceDir'\<rparr>;
          ff1 = addToIgnoreList cwd ff0 basePatterns;
          ff2 = addToIgnoreList cwd ff1 ignoreFiles
      in case artifactsDir of
           None \<Rightarrow> ff2
         | Some a \<Rightarrow>
             if a \<noteq> [] \<and> isSubPath cwd sourceDir' a then
               (let a' = path_resolve cwd [a]
                in addToIgnoreList cwd ff2 [a', path_join [a', ''**'', ''*'']])
             else ff2)"

text \<open>\<open>wantFile\<close> throws what \<open>multimatch\<close> throws.\<close>

definition wantFile :: "matcher \<Rightarrow> string \<Rightarrow> file_filter \<Rightarrow> string \<Rightarrow> error + bool" where
  "wantFile lib cwd ff filePath =
     (let resolvedPath = resolveWithSourceDir cwd ff filePath
      in case multimatch lib resolvedPath (filesToIgnore ff) of
           Inl e \<Rightarrow> Inl e
         | Inr matches \<Rightarrow> Inr (if length matches > 0 then False else True))"

section \<open>Reading a trace\<close>

text \<open>The cleanup callbacks called in a trace, in the order of the calls.\<close>

fun invoked :: "trace \<Rightarrow> callback list" where
  "invoked [] = []"
| "invoked (CleanupCb cb out # w) = cb # invoked w"
| "invoked (ev # w) = invoked w"

text \<open>The errors thrown by cleanup callbacks, and the errors logged.\<close>

fun raised :: "trace \<Rightarrow> error list" where
  "raised [] = []"
| "raised (CleanupCb cb (Some e) # w) = e # raised w"
| "raised (ev # w) = raised w"

fun logged :: "trace \<Rightarrow> error list" where
  "logged [] = []"
| "logged (LogError e # w) = e # logged w"
| "logged (ev # w) = logged w"

text \<open>
  The source directories whose temporary install resolved with a non-empty addon id
  (\<open>installed\<close>), and those whose temporary install resolved at all (\<open>resolved\<close>).
\<close>

fun installed :: "trace \<Rightarrow> string list" where
  "installed [] = []"
| "installed (InstallTemporaryAddon s d dt (Inr (Some i)) # w) =
     (if i = [] then installed w else d # installed w)"
| "installed (ev # w) = installed w"

fun resolved :: "trace \<Rightarrow> string list" where
  "resolved [] = []"
| "resolved (InstallTemporaryAddon s d dt (Inr a) # w) = d # resolved w"
| "resolved (ev # w) = resolved w"

fun temp_install :: "event \<Rightarrow> bool" where
  "temp_install (InstallTemporaryAddon s d dt out) = True"
| "temp_install ev = False"

text \<open>A temporary install that resolved with no addon id.\<close>

fun without_id :: "event \<Rightarrow> bool" where
  "without_id (InstallTemporaryAddon s d dt (Inr a)) = missing_addonId a"
| "without_id ev = False"

definition missing_id_error :: error where
  "missing_id_error =
     WebExtError ''Unexpected missing addonId in the installAsTemporaryAddon result''"

text \<open>
  What the install loop leaves behind: only install events, the keys of the map grown by
  the directories installed with an id, and an install without id as the last event.
\<close>

definition install_post ::
  "string set \<Rightarrow> (error + unit) \<Rightarrow> string set \<Rightarrow> trace \<Rightarrow> bool" where
  "install_post ks res ks' new =
     ((\<forall>ev \<in> set new. temp_install ev)
      \<and> ks' = ks \<union> set (installed new)
      \<and> (\<forall>ev \<in> set new. without_id ev \<longrightarrow>
            res = Inl missing_id_error \<and>
            (\<exists>before. new = before @ [ev] \<and> ks' = ks \<union> set (installed before))))"




subsection \<open>Example collaborators\<close>

text \<open>
  A browser that launches and connects; the install of \<open>/ext/c\<close> resolves with an empty
  id, the reload of \<open>b@id\<close> is rejected with an \<open>Error\<close>, the reload of \<open>d@id\<close> is
  rejected with a value that is no \<open>Error\<close>, and callback 2 throws.
\<close>

definition demo_env :: collaborators where
  "demo_env =
     \<lparr>useProfile = (\<lambda>w path prefs. Inr 1),
      copyProfile = (\<lambda>w path prefs. Inr 2),
      createProfile = (\<lambda>w prefs. Inr 3),
      installExtension = (\<lambda>w x prof. None),
      firefoxApp_run = (\<lambda>w prof bin bargs exts dt.
         Inr \<lparr>firefox = Some 7, debuggerPort = 6000\<rparr>),
      firefoxClient = (\<lambda>w port. Inr 5),
      installTemporaryAddon = (\<lambda>w s d dt.
         if d = ''/ext/a'' then Inr (Some ''a@id'')
         else if d = ''/ext/b'' then Inr (Some ''b@id'')
         else if d = ''/ext/c'' then Inr (Some [])
         else if d = ''/ext/d'' then Inr (Some ''d@id'')
         else Inl (OtherError ''install failed'')),
      reloadAddon = (\<lambda>w s a.
         if a = ''b@id'' then Some (OtherError ''reload failed'')
         else if a = ''d@id'' then Some (NotAnError ''connection closed'')
         else None),
      cleanupCb = (\<lambda>w cb. if cb = 2 then Some (OtherError ''callback failed'') else None)\<rparr>"

definition demo_params :: "string list \<Rightarrow> params" where
  "demo_params dirs =
     \<lparr>customPrefs = [], extensions = map (\<lambda>d. \<lparr>sourceDir = d, manifestData = []\<rparr>) dirs,
      keepProfileChanges = False, preInstall = False, profilePath = None,
      browserConsole = False, devtools = False, firefoxBinary = None, startUrl = None,
      args = None\<rparr>"

text \<open>The runner and the trace after \<open>run\<close> on \<open>/ext/a\<close> and \<open>/ext/b\<close>.\<close>

definition demo_runner :: runner where
  "demo_runner =
     \<lparr>params = demo_params [''/ext/a'', ''/ext/b''], profile = Some 3,
      reloadableExtensions = [(''/ext/a'', ''a@id''), (''/ext/b'', ''b@id'')],
      remoteFirefox = Some 5,
      runningInfo = Some \<lparr>firefox = Some 7, debuggerPort = 6000\<rparr>, cleanupCallbacks = []\<rparr>"

definition demo_trace :: trace where
  "demo_trace =
     [CreateProfile (Inr 3), Run [] (Inr \<lparr>firefox = Some 7, debuggerPort = 6000\<rparr>),
      OnClose 7, FirefoxClient 6000 (Inr 5),
      InstallTemporaryAddon 5 ''/ext/a'' False (Inr (Some ''a@id'')),
      InstallTemporaryAddon 5 ''/ext/b'' False (Inr (Some ''b@id''))]"



subsection \<open>Paths and patterns\<close>

text \<open>Segments as \<open>path.resolve\<close> leaves them: not empty, no \<open>/\<close>, neither \<open>.\<close> nor \<open>..\<close>.\<close>

definition clean :: "string list \<Rightarrow> bool" where
  "clean segs = list_all (\<lambda>s. s \<noteq> [] \<and> sep \<notin> set s \<and> s \<noteq> ''.'' \<and> s \<noteq> ''..'') segs"

text \<open>The segments of \<open>path.resolve(...paths)\<close> in the working directory \<open>cwd\<close>.\<close>

definition resolve_segs :: "string \<Rightarrow> string list \<Rightarrow> string list" where
  "resolve_segs cwd paths = norm_segs False [] (fst (resolve_args (rev paths @ [cwd]) []))"

text \<open>The names in a relative path: its segments other than the empty one and \<open>.\<close>.\<close>

definition names :: "string \<Rightarrow> string list" where
  "names x = filter (\<lambda>s. s \<noteq> [] \<and> s \<noteq> ''.'') (split_on sep x)"

text \<open>
  A directory that stands for itself at the head of a pattern: none of \<open>[\<close>, \<open>{\<close>,
  \<open>(\<close> and the backslash, no segment \<open>**\<close> (which matches any number of names), and
  no segment with \<open>*\<close> or \<open>?\<close> that begins with a line terminator (which does not
  match its own name). A segment with \<open>*\<close> or \<open>?\<close> matches other names as well as its
  own; the paths of one filter all lie under the same directory.
\<close>

definition self_matching :: "string \<Rightarrow> bool" where
  "self_matching dir =
     (list_all (\<lambda>c. \<not> other_syntax c) dir
      \<and> list_all (\<lambda>s. s \<noteq> ''**'' \<and> \<not> (has_magic s \<and> line_terminator (hd s)))
            (segments dir))"

text \<open>The two patterns that the constructor adds for the artifacts directory, if any.\<close>

definition artifacts_patterns :: "string \<Rightarrow> string \<Rightarrow> string option \<Rightarrow> string list" where
  "artifacts_patterns cwd srcDir artifactsDir =
     (case artifactsDir of
        None \<Rightarrow> []
      | Some a \<Rightarrow>
          if a \<noteq> [] \<and> isSubPath cwd (path_resolve cwd [srcDir]) a
          then [path_resolve cwd [a], path_join [path_resolve cwd [a], ''**'', ''*'']]
          else [])"

text \<open>The result of \<open>multimatch\<close> on one path: nothing, or that path.\<close>

definition only_item :: "string \<Rightarrow> string list \<Rightarrow> bool" where
  "only_item item acc = (acc = [] \<or> acc = [item])"

text \<open>
  A matcher for the examples. They use modelled patterns only, so it is not asked, and
  the results are the same with any other.
\<close>

definition no_lib :: matcher where
  "no_lib f pattern = Inl (OtherError ''not asked'')"

section \<open>Facts about the runner\<close>

subsection \<open>Traces, maps and sets\<close>

lemma invoked_append: "invoked (u @ v) = invoked u @ invoked v"
  by (induction u rule: invoked.induct) auto

lemma raised_append: "raised (u @ v) = raised u @ raised v"
  by (induction u rule: raised.induct) auto

lemma logged_append: "logged (u @ v) = logged u @ logged v"
  by (induction u rule: logged.induct) auto

lemma installed_append: "installed (u @ v) = installed u @ installed v"
  by (induction u rule: installed.induct) auto

lemma installed_none: "\<forall>ev \<in> set u. \<not> temp_install ev \<Longrightarrow> installed u = []"
  by (induction u rule: installed.induct) auto

lemma keys_map_set: "fst ` set (map_set m k v) = insert k (fst ` set m)"
  by (induction m k v rule: map_set.induct) auto

lemma installed_only_temp:
  "\<forall>ev \<in> set pre. \<not> temp_install ev \<Longrightarrow> installed (pre @ new) = installed new"
  by (simp add: installed_append installed_none)








lemma set_foldl_set_add: "set (foldl set_add s fs) = set s \<union> set fs"
  by (induction fs arbitrary: s) (auto simp: set_add_def)

lemma distinct_foldl_set_add: "distinct s \<Longrightarrow> distinct (foldl set_add s fs)"
  by (induction fs arbitrary: s) (auto simp: set_add_def)

lemma foldl_set_add_distinct: "distinct (s @ fs) \<Longrightarrow> foldl set_add s fs = s @ fs"
  by (induction fs arbitrary: s) (auto simp: set_add_def)

lemma foldl_set_add_first: "foldl set_add [] fs = rev (remdups (rev fs))"
proof (induction fs rule: rev_induct)
  case Nil
  show ?case by simp
next
  case (snoc x fs)
  define acc where "acc = foldl set_add [] fs"
  have s: "set acc = set fs" by (simp add: acc_def set_foldl_set_add)
  have a: "acc = rev (remdups (rev fs))" using snoc by (simp add: acc_def)
  have "foldl set_add [] (fs @ [x]) = set_add acc x" by (simp add: acc_def)
  also have "\<dots> = (if x \<in> set fs then acc else acc @ [x])" by (simp add: set_add_def s)
  also have "\<dots> = rev (remdups (rev (fs @ [x])))" by (simp add: a)
  finally show ?case .
qed

lemma count_list_distinct: "distinct xs \<Longrightarrow> x \<in> set xs \<Longrightarrow> count_list xs x = 1"
  by (induction xs) (auto simp: count_list_0_iff)

subsection \<open>The close observer\<close>

lemma cleanup_loop_trace:
  "\<exists>new. cleanup_loop env cbs w = w @ new \<and> invoked new = cbs \<and> logged new = raised new"
proof (induction cbs arbitrary: w)
  case Nil
  show ?case by simp
next
  case (Cons cb cbs)
  show ?case
  proof (cases "cleanupCb env w cb")
    case None
    from Cons [of "w @ [CleanupCb cb None]"] obtain new where
      n: "cleanup_loop env cbs (w @ [CleanupCb cb None]) = (w @ [CleanupCb cb None]) @ new"
         "invoked new = cbs" "logged new = raised new" by blast
    show ?thesis
      by (rule exI [of _ "CleanupCb cb None # new"]) (simp add: None n)
  next
    case (Some e)
    from Cons [of "w @ [CleanupCb cb (Some e), LogError e]"] obtain new where
      n: "cleanup_loop env cbs (w @ [CleanupCb cb (Some e), LogError e])
            = (w @ [CleanupCb cb (Some e), LogError e]) @ new"
         "invoked new = cbs" "logged new = raised new" by blast
    show ?thesis
      by (rule exI [of _ "CleanupCb cb (Some e) # LogError e # new"]) (simp add: Some n)
  qed
qed

lemma callbacks_foldl:
  "cleanupCallbacks (foldl registerCleanup r fs) = foldl set_add (cleanupCallbacks r) fs"
  by (induction fs arbitrary: r) (auto simp: registerCleanup_def)

lemma on_close_invokes:
  "\<exists>new. on_close env r w = (Inr (), w @ new) \<and> invoked new = cleanupCallbacks r
     \<and> logged new = raised new"
  using cleanup_loop_trace [of env "cleanupCallbacks r" w] by (auto simp: on_close_def)

lemma callbacks_registered:
  "cleanupCallbacks (foldl registerCleanup (constructor p) fs) = foldl set_add [] fs"
  by (simp add: callbacks_foldl constructor_def)

text \<open>
  Claim C4. When the close observer fires on a runner on which the callbacks \<open>fs\<close> were
  registered, it returns normally whatever the callbacks do; the callbacks it calls are
  those registered, each exactly once, in the order in which they were first registered
  (that of \<open>fs\<close> itself when each was registered once); and every error a callback
  throws is logged (the errors logged are the errors thrown, in the same order).
\<close>

theorem close_observer_runs_every_callback:
  "\<exists>new. on_close env (foldl registerCleanup (constructor p) fs) w = (Inr (), w @ new)
     \<and> set (invoked new) = set fs
     \<and> (\<forall>f \<in> set fs. count_list (invoked new) f = 1)
     \<and> invoked new = rev (remdups (rev fs))
     \<and> (distinct fs \<longrightarrow> invoked new = fs)
     \<and> logged new = raised new"
proof -
  let ?r = "foldl registerCleanup (constructor p) fs"
  obtain new where n: "on_close env ?r w = (Inr (), w @ new)"
      "invoked new = cleanupCallbacks ?r" "logged new = raised new"
    using on_close_invokes by blast
  have cbs: "invoked new = foldl set_add [] fs"
    by (simp add: n(2) callbacks_registered)
  have 1: "set (invoked new) = set fs" by (simp add: cbs set_foldl_set_add)
  have 2: "distinct (invoked new)" by (simp add: cbs distinct_foldl_set_add)
  have 3: "distinct fs \<longrightarrow> invoked new = fs"
    using foldl_set_add_distinct [of "[]" fs] by (simp add: cbs)
  have 4: "\<forall>f \<in> set fs. count_list (invoked new) f = 1"
    using 1 2 count_list_distinct by fastforce
  have 5: "invoked new = rev (remdups (rev fs))"
    by (simp only: cbs foldl_set_add_first)
  show ?thesis using n(1) n(3) 1 3 4 5 by blast
qed

theorem close_observer_runs_every_callback_witness:
  "on_close demo_env (foldl registerCleanup (constructor (demo_params [])) [1, 2, 3]) []
     = (Inr (), [CleanupCb 1 None, CleanupCb 2 (Some (OtherError ''callback failed'')),
                 LogError (OtherError ''callback failed''), CleanupCb 3 None])
   \<and> (\<exists>new. on_close demo_env (foldl registerCleanup (constructor (demo_params [])) [1, 2, 3]) []
          = (Inr (), [] @ new)
        \<and> invoked new = [1, 2, 3] \<and> count_list (invoked new) 2 = 1
        \<and> logged new = raised new)"
proof -
  have e: "on_close demo_env (foldl registerCleanup (constructor (demo_params [])) [1, 2, 3]) []
     = (Inr (), [CleanupCb 1 None, CleanupCb 2 (Some (OtherError ''callback failed'')),
                 LogError (OtherError ''callback failed''), CleanupCb 3 None])"
    by (simp add: on_close_def registerCleanup_def set_add_def constructor_def demo_env_def)
  from close_observer_runs_every_callback
         [of demo_env "demo_params []" "[1, 2, 3]" "[]"]
  obtain new where n:
    "on_close demo_env (foldl registerCleanup (constructor (demo_params [])) [1, 2, 3]) []
       = (Inr (), [] @ new)"
    "\<forall>f \<in> set [1, 2, 3 :: nat]. count_list (invoked new) f = 1"
    "distinct [1, 2, 3 :: nat] \<longrightarrow> invoked new = [1, 2, 3]"
    "logged new = raised new"
    by blast
  have "invoked new = [1, 2, 3]" "count_list (invoked new) 2 = 1"
    using n(2) n(3) by simp_all
  with e n(1) n(4) show ?thesis by blast
qed

text \<open>
  Claim C5. Registering a callback that is already registered changes nothing, and a
  callback registered twice (among any others, before and after) is called exactly once
  when the close observer fires.
\<close>

theorem registerCleanup_idempotent:
  "registerCleanup (registerCleanup r fn) fn = registerCleanup r fn
   \<and> (\<exists>new. on_close env
               (foldl registerCleanup (constructor p) (fs @ [fn, fn] @ gs)) w
              = (Inr (), w @ new)
            \<and> count_list (invoked new) fn = 1)"
proof
  show "registerCleanup (registerCleanup r fn) fn = registerCleanup r fn"
    by (simp add: registerCleanup_def set_add_def)
next
  let ?all = "fs @ [fn, fn] @ gs"
  let ?r = "foldl registerCleanup (constructor p) ?all"
  obtain new where n: "on_close env ?r w = (Inr (), w @ new)"
      "invoked new = cleanupCallbacks ?r"
    using on_close_invokes by blast
  have cbs: "invoked new = foldl set_add [] ?all"
    by (simp only: n(2) callbacks_registered)
  have d: "distinct (invoked new)"
    unfolding cbs by (rule distinct_foldl_set_add) simp
  have "set (invoked new) = set [] \<union> set ?all"
    unfolding cbs by (rule set_foldl_set_add)
  then have "fn \<in> set (invoked new)" by simp
  with d have "count_list (invoked new) fn = 1" by (rule count_list_distinct)
  with n(1) show "\<exists>new. on_close env ?r w = (Inr (), w @ new)
            \<and> count_list (invoked new) fn = 1"
    by blast
qed

theorem registerCleanup_idempotent_witness:
  "cleanupCallbacks (registerCleanup (registerCleanup (constructor (demo_params [])) 4) 4) = [4]
   \<and> on_close demo_env (foldl registerCleanup (constructor (demo_params [])) ([1] @ [4, 4] @ [3])) []
       = (Inr (), [CleanupCb 1 None, CleanupCb 4 None, CleanupCb 3 None])"
proof -
  have e: "on_close demo_env
             (foldl registerCleanup (constructor (demo_params [])) ([1] @ [4, 4] @ [3])) []
       = (Inr (), [CleanupCb 1 None, CleanupCb 4 None, CleanupCb 3 None])"
    by (simp add: on_close_def registerCleanup_def set_add_def constructor_def demo_env_def)
  have "cleanupCallbacks (registerCleanup (constructor (demo_params [])) 4) = [4]"
    by (simp add: registerCleanup_def set_add_def constructor_def)
  with registerCleanup_idempotent [of "constructor (demo_params [])" 4]
  have "cleanupCallbacks (registerCleanup (registerCleanup (constructor (demo_params [])) 4) 4)
          = [4]"
    by simp
  with e show ?thesis by blast
qed

subsection \<open>Reloading\<close>

lemmas run_defs = run_def setupProfileDir_def make_profile_def startFirefoxInstance_def
  binaryArgs_def truthy_def missing_addonId_def install_catch_def Let_def
  demo_env_def demo_params_def constructor_def







text \<open>
  Claim C3. For a source directory with no addon id in \<open>reloadableExtensions\<close>,
  \<open>reloadExtensionBySourceDir\<close> returns one result whose error is the
  \<open>WebExtError\<close> "Extension not reloadable: no addonId has been mapped to ..." and
  leaves the trace as it was: \<open>reloadAddon\<close> is not called. In every state it returns
  one result and never throws; when the directory is tracked and \<open>reloadAddon\<close> is
  rejected, the rejection is the result's \<open>reloadError\<close>.
\<close>

theorem untracked_reload_is_an_error_result:
  "(map_get (reloadableExtensions r) d = None \<longrightarrow>
      reloadExtensionBySourceDir env r d w
        = (Inr [\<lparr>runnerName = getName, result_sourceDir = Some d,
                 reloadError = Some (not_reloadable d)\<rparr>], w))
   \<and> (\<exists>res w'. reloadExtensionBySourceDir env r d w = (Inr [res], w'))
   \<and> (map_get (reloadableExtensions r) d = Some a \<and> a \<noteq> [] \<and> remoteFirefox r = Some s
        \<and> reloadAddon env w s a = Some e \<longrightarrow>
      reloadExtensionBySourceDir env r d w
        = (Inr [\<lparr>runnerName = getName, result_sourceDir = Some d, reloadError = Some e\<rparr>],
           w @ [ReloadAddon s a (Some e)]))"
  by (auto simp: reloadExtensionBySourceDir_def call_reloadAddon_def
           split: option.splits sum.splits prod.splits)

theorem untracked_reload_is_an_error_result_witness:
  "reloadExtensionBySourceDir demo_env demo_runner ''/ext/zzz'' demo_trace
     = (Inr [\<lparr>runnerName = getName, result_sourceDir = Some ''/ext/zzz'',
              reloadError = Some (not_reloadable ''/ext/zzz'')\<rparr>], demo_trace)
   \<and> reloadExtensionBySourceDir demo_env demo_runner ''/ext/b'' demo_trace
     = (Inr [\<lparr>runnerName = getName, result_sourceDir = Some ''/ext/b'',
              reloadError = Some (OtherError ''reload failed'')\<rparr>],
        demo_trace @ [ReloadAddon 5 ''b@id'' (Some (OtherError ''reload failed''))])"
proof -
  have 1: "map_get (reloadableExtensions demo_runner) ''/ext/zzz'' = None"
    by (simp add: map_get_def demo_runner_def)
  have 2: "map_get (reloadableExtensions demo_runner) ''/ext/b'' = Some ''b@id''
             \<and> ''b@id'' \<noteq> [] \<and> remoteFirefox demo_runner = Some 5
             \<and> reloadAddon demo_env demo_trace 5 ''b@id'' = Some (OtherError ''reload failed'')"
    by (simp add: map_get_def demo_runner_def demo_env_def)
  show ?thesis
    using 1 2
      untracked_reload_is_an_error_result
        [of demo_runner "''/ext/zzz''" demo_env demo_trace "''b@id''" 5 "OtherError ''reload failed''"]
      untracked_reload_is_an_error_result
        [of demo_runner "''/ext/b''" demo_env demo_trace "''b@id''" 5 "OtherError ''reload failed''"]
    by simp
qed

subsection \<open>Running\<close>

lemma install_post_Nil: "install_post ks res ks []"
  by (simp add: install_post_def)

lemma install_post_failed:
  "temp_install ev \<Longrightarrow> installed [ev] = [] \<Longrightarrow> (without_id ev \<Longrightarrow> res = Inl missing_id_error)
     \<Longrightarrow> install_post ks res ks [ev]"
  by (simp add: install_post_def)

lemma install_post_Cons:
  assumes "install_post (insert d ks) res ks' new"
    and "temp_install ev" and "\<not> without_id ev" and "installed [ev] = [d]"
  shows "install_post ks res ks' (ev # new)"
proof -
  have i: "\<And>u. installed (ev # u) = d # installed u"
    using installed_append [of "[ev]"] assms(4) by simp
  have 1: "\<forall>e \<in> set (ev # new). temp_install e"
    using assms(1,2) by (simp add: install_post_def)
  have 2: "ks' = ks \<union> set (installed (ev # new))"
    using assms(1) by (simp add: install_post_def i)
  have 3: "\<forall>e \<in> set (ev # new). without_id e \<longrightarrow>
            res = Inl missing_id_error \<and>
            (\<exists>before. ev # new = before @ [e] \<and> ks' = ks \<union> set (installed before))"
  proof (intro ballI impI)
    fix e assume e: "e \<in> set (ev # new)" "without_id e"
    with assms(3) have "e \<in> set new" by auto
    with assms(1) e(2) obtain before where b: "res = Inl missing_id_error"
      "new = before @ [e]" "ks' = insert d ks \<union> set (installed before)"
      unfolding install_post_def by blast
    have "ev # new = (ev # before) @ [e]" "ks' = ks \<union> set (installed (ev # before))"
      using b by (simp_all add: i)
    with b(1) show "res = Inl missing_id_error \<and>
            (\<exists>before. ev # new = before @ [e] \<and> ks' = ks \<union> set (installed before))"
      by blast
  qed
  show ?thesis unfolding install_post_def using 1 2 3 by blast
qed

lemma install_loop_trace:
  "install_loop env s dt xs r w = (res, r', w') \<Longrightarrow>
   \<exists>new. w' = w @ new
     \<and> install_post (fst ` set (reloadableExtensions r)) res
          (fst ` set (reloadableExtensions r')) new
     \<and> runningInfo r' = runningInfo r"
proof (induction xs arbitrary: r w)
  case Nil
  then show ?case by (auto simp: install_post_Nil)
next
  case (Cons x xs)
  define out where "out = installTemporaryAddon env w s (sourceDir x) dt"
  define ev where "ev = InstallTemporaryAddon s (sourceDir x) dt out"
  have t: "temp_install ev" by (simp add: ev_def)
  show ?case
  proof (cases out)
    case (Inl err)
    with Cons.prems have e: "r' = r" "w' = w @ [ev]"
      by (auto simp: Let_def out_def ev_def)
    have "install_post (fst ` set (reloadableExtensions r)) res
            (fst ` set (reloadableExtensions r)) [ev]"
      using t Inl by (intro install_post_failed) (simp_all add: ev_def)
    then show ?thesis using e by simp
  next
    case (Inr a)
    show ?thesis
    proof (cases "missing_addonId a")
      case True
      with Cons.prems Inr have e: "res = Inl missing_id_error" "r' = r" "w' = w @ [ev]"
        by (auto simp: Let_def install_catch_def missing_id_error_def out_def ev_def)
      have "install_post (fst ` set (reloadableExtensions r)) res
              (fst ` set (reloadableExtensions r)) [ev]"
        using t Inr True e(1)
        by (intro install_post_failed)
           (auto simp: ev_def missing_addonId_def split: option.splits)
      then show ?thesis using e by simp
    next
      case False
      then obtain i where a: "a = Some i" "i \<noteq> []"
        by (auto simp: missing_addonId_def split: option.splits)
      define r1 where
        "r1 = r\<lparr>reloadableExtensions := map_set (reloadableExtensions r) (sourceDir x) i\<rparr>"
      have k: "fst ` set (reloadableExtensions r1)
                 = insert (sourceDir x) (fst ` set (reloadableExtensions r))"
        by (simp add: r1_def keys_map_set)
      have ri: "runningInfo r1 = runningInfo r" by (simp add: r1_def)
      from Cons.prems Inr False a have
        "install_loop env s dt xs r1 (w @ [ev]) = (res, r', w')"
        by (simp add: Let_def out_def ev_def r1_def)
      from Cons.IH [OF this] obtain new where n:
        "w' = (w @ [ev]) @ new"
        "install_post (fst ` set (reloadableExtensions r1)) res
           (fst ` set (reloadableExtensions r')) new"
        "runningInfo r' = runningInfo r1"
        by blast
      have "install_post (fst ` set (reloadableExtensions r)) res
              (fst ` set (reloadableExtensions r')) (ev # new)"
        using n(2) t Inr a unfolding k
        by (intro install_post_Cons [where d = "sourceDir x"])
           (simp_all add: ev_def missing_addonId_def)
      then show ?thesis using n(1) n(3) ri by simp
    qed
  qed
qed

lemma preInstall_loop_trace:
  "\<exists>new. snd (preInstall_loop env prof xs w) = w @ new \<and> (\<forall>ev \<in> set new. \<not> temp_install ev)"
proof (induction xs arbitrary: w)
  case Nil
  show ?case by simp
next
  case (Cons x xs)
  show ?case
  proof (cases "installExtension env w x prof")
    case (Some e)
    show ?thesis
      by (rule exI [of _ "[InstallExtension (sourceDir x) prof (Some e)]"]) (simp add: Some)
  next
    case None
    let ?ev = "InstallExtension (sourceDir x) prof None"
    from Cons [of "w @ [?ev]"] obtain new where
      n: "snd (preInstall_loop env prof xs (w @ [?ev])) = (w @ [?ev]) @ new"
         "\<forall>ev \<in> set new. \<not> temp_install ev" by blast
    show ?thesis
      by (rule exI [of _ "?ev # new"]) (simp add: None n)
  qed
qed

lemma make_profile_trace:
  "\<exists>ev. snd (make_profile env p w) = w @ [ev] \<and> \<not> temp_install ev"
  by (simp add: make_profile_def Let_def)

lemma setupProfileDir_trace:
  assumes "setupProfileDir env r w = (res, r', w')"
  shows "\<exists>new. w' = w @ new \<and> (\<forall>ev \<in> set new. \<not> temp_install ev)
           \<and> reloadableExtensions r' = reloadableExtensions r \<and> params r' = params r"
proof -
  let ?p = "params r"
  obtain made w1 where m: "make_profile env ?p w = (made, w1)"
    by (cases "make_profile env ?p w") auto
  with make_profile_trace [of env ?p w] obtain ev where
    ev: "w1 = w @ [ev]" "\<not> temp_install ev" by auto
  show ?thesis
  proof (cases made)
    case (Inl e)
    with assms m have "r' = r" "w' = w1" by (auto simp: setupProfileDir_def)
    then show ?thesis using ev by (intro exI [of _ "[ev]"]) simp
  next
    case (Inr prof)
    show ?thesis
    proof (cases "preInstall ?p")
      case False
      with assms m Inr have "r' = r\<lparr>profile := Some prof\<rparr>" "w' = w1"
        by (auto simp: setupProfileDir_def)
      then show ?thesis using ev by (intro exI [of _ "[ev]"]) simp
    next
      case True
      obtain new where n:
        "snd (preInstall_loop env prof (extensions ?p) w1) = w1 @ new"
        "\<forall>e \<in> set new. \<not> temp_install e"
        using preInstall_loop_trace by blast
      from assms m Inr True have
        "r' = r\<lparr>profile := Some prof\<rparr>"
        "w' = snd (preInstall_loop env prof (extensions ?p) w1)"
        by (auto simp: setupProfileDir_def split: prod.splits)
      then show ?thesis using ev n by (intro exI [of _ "ev # new"]) simp
    qed
  qed
qed


lemma startFirefoxInstance_trace:
  assumes "startFirefoxInstance env r w = (res, r', w')"
  shows "\<exists>pre new. w' = w @ pre @ new
     \<and> (\<forall>ev \<in> set pre. \<not> temp_install ev)
     \<and> install_post (fst ` set (reloadableExtensions r)) res
          (fst ` set (reloadableExtensions r')) new
     \<and> (preInstall (params r) \<longrightarrow> new = [] \<and> reloadableExtensions r' = reloadableExtensions r)
     \<and> (res = Inr () \<longrightarrow> (\<exists>ri p. runningInfo r' = Some ri \<and> firefox ri = Some p
            \<and> Run (binaryArgs (params r)) (Inr ri) \<in> set pre))"
proof -
  let ?p = "params r"
  define launched where "launched = firefoxApp_run env w (profile r) (firefoxBinary ?p)
                       (binaryArgs ?p) (extensions ?p) (devtools ?p)"
  define lev where "lev = Run (binaryArgs ?p) launched"
  have nlev: "\<not> temp_install lev" by (simp add: lev_def)
  show ?thesis
  proof (cases launched)
    case (Inl e)
    with assms have "res = Inl e" "r' = r" "w' = w @ [lev]"
      by (auto simp: startFirefoxInstance_def Let_def launched_def lev_def)
    then show ?thesis using nlev
      by (intro exI [of _ "[lev]"] exI [of _ "[]"]) (simp add: install_post_Nil)
  next
    case (Inr ri)
    define r1 where "r1 = r\<lparr>runningInfo := Some ri\<rparr>"
    have r1: "reloadableExtensions r1 = reloadableExtensions r" "runningInfo r1 = Some ri"
      by (simp_all add: r1_def)
    have rin: "lev = Run (binaryArgs ?p) (Inr ri)" by (simp add: lev_def Inr)
    show ?thesis
    proof (cases "firefox ri")
      case None
      with assms Inr have "\<exists>e. res = Inl e" "r' = r1" "w' = w @ [lev]"
        by (auto simp: startFirefoxInstance_def Let_def launched_def lev_def r1_def)
      then show ?thesis using nlev r1
        by (intro exI [of _ "[lev]"] exI [of _ "[]"]) (auto simp: install_post_Nil)
    next
      case (Some proc)
      show ?thesis
      proof (cases "preInstall ?p")
        case True
        with assms Inr Some have "res = Inr ()" "r' = r1" "w' = w @ [lev, OnClose proc]"
          by (auto simp: startFirefoxInstance_def Let_def launched_def lev_def r1_def)
        then show ?thesis using nlev r1 rin Some
          by (intro exI [of _ "[lev, OnClose proc]"] exI [of _ "[]"])
             (simp add: install_post_Nil)
      next
        case False
        define w2 where "w2 = w @ [lev, OnClose proc]"
        define conn where "conn = firefoxClient env w2 (debuggerPort ri)"
        define cev where "cev = FirefoxClient (debuggerPort ri) conn"
        have ncev: "\<not> temp_install cev" by (simp add: cev_def)
        show ?thesis
        proof (cases conn)
          case (Inl e)
          with assms \<open>launched = Inr ri\<close> Some False have "res = Inl e" "r' = r1" "w' = w2 @ [cev]"
            by (auto simp: startFirefoxInstance_def Let_def launched_def lev_def r1_def
                  w2_def conn_def cev_def)
          then show ?thesis using nlev ncev r1 False
            by (intro exI [of _ "[lev, OnClose proc, cev]"] exI [of _ "[]"])
               (simp add: w2_def install_post_Nil)
        next
          case (Inr s)
          define r2 where "r2 = r1\<lparr>remoteFirefox := Some s\<rparr>"
          have r2: "reloadableExtensions r2 = reloadableExtensions r" "runningInfo r2 = Some ri"
            by (simp_all add: r2_def r1)
          from assms \<open>launched = Inr ri\<close> Some False Inr have
            "install_loop env s (devtools ?p) (extensions ?p) r2 (w2 @ [cev]) = (res, r', w')"
            by (simp add: startFirefoxInstance_def Let_def launched_def lev_def r1_def
                  w2_def conn_def cev_def r2_def)
          from install_loop_trace [OF this] obtain new where n:
            "w' = (w2 @ [cev]) @ new"
            "install_post (fst ` set (reloadableExtensions r2)) res
               (fst ` set (reloadableExtensions r')) new"
            "runningInfo r' = runningInfo r2"
            by blast
          have 1: "w' = w @ [lev, OnClose proc, cev] @ new" using n(1) by (simp add: w2_def)
          have 2: "\<forall>ev \<in> set [lev, OnClose proc, cev]. \<not> temp_install ev"
            using nlev ncev by simp
          have 3: "install_post (fst ` set (reloadableExtensions r)) res
               (fst ` set (reloadableExtensions r')) new"
            using n(2) by (simp only: r2(1))
          have 4: "preInstall (params r) \<longrightarrow> new = [] \<and> reloadableExtensions r' = reloadableExtensions r"
            using False by simp
          have 5: "res = Inr () \<longrightarrow> (\<exists>ri p. runningInfo r' = Some ri \<and> firefox ri = Some p
            \<and> Run (binaryArgs (params r)) (Inr ri) \<in> set [lev, OnClose proc, cev])"
            using n(3) r2(2) Some rin by simp
          show ?thesis using 1 2 3 4 5 by blast
        qed
      qed
    qed
  qed
qed

lemma run_trace:
  assumes "run env r w = (res, r', w')"
  shows "\<exists>pre new. w' = w @ pre @ new
     \<and> (\<forall>ev \<in> set pre. \<not> temp_install ev)
     \<and> install_post (fst ` set (reloadableExtensions r)) res
          (fst ` set (reloadableExtensions r')) new
     \<and> (preInstall (params r) \<longrightarrow> new = [] \<and> reloadableExtensions r' = reloadableExtensions r)
     \<and> (res = Inr () \<longrightarrow> (\<exists>ri p. runningInfo r' = Some ri \<and> firefox ri = Some p
            \<and> Run (binaryArgs (params r)) (Inr ri) \<in> set pre))"
proof -
  obtain res1 r1 w1 where s: "setupProfileDir env r w = (res1, r1, w1)"
    by (cases "setupProfileDir env r w") auto
  from setupProfileDir_trace [OF s] obtain pre1 where p1:
    "w1 = w @ pre1" "\<forall>ev \<in> set pre1. \<not> temp_install ev"
    "reloadableExtensions r1 = reloadableExtensions r" "params r1 = params r"
    by blast
  show ?thesis
  proof (cases res1)
    case (Inl e)
    with assms s have "res = Inl e" "r' = r1" "w' = w1" by (auto simp: run_def)
    then show ?thesis using p1
      by (intro exI [of _ pre1] exI [of _ "[]"]) (simp add: install_post_Nil)
  next
    case (Inr u)
    with assms s have "startFirefoxInstance env r1 w1 = (res, r', w')" by (simp add: run_def)
    from startFirefoxInstance_trace [OF this] obtain pre new where n:
      "w' = w1 @ pre @ new"
      "\<forall>ev \<in> set pre. \<not> temp_install ev"
      "install_post (fst ` set (reloadableExtensions r1)) res
          (fst ` set (reloadableExtensions r')) new"
      "preInstall (params r1) \<longrightarrow> new = [] \<and> reloadableExtensions r' = reloadableExtensions r1"
      "res = Inr () \<longrightarrow> (\<exists>ri p. runningInfo r' = Some ri \<and> firefox ri = Some p
            \<and> Run (binaryArgs (params r1)) (Inr ri) \<in> set pre)"
      by blast
    have 1: "w' = w @ (pre1 @ pre) @ new" using n(1) p1(1) by simp
    have 2: "\<forall>ev \<in> set (pre1 @ pre). \<not> temp_install ev" using n(2) p1(2) by auto
    have 3: "install_post (fst ` set (reloadableExtensions r)) res
          (fst ` set (reloadableExtensions r')) new"
      using n(3) by (simp only: p1(3))
    have 4: "preInstall (params r) \<longrightarrow> new = [] \<and> reloadableExtensions r' = reloadableExtensions r"
      using n(4) by (simp only: p1(3) p1(4))
    have 5: "res = Inr () \<longrightarrow> (\<exists>ri p. runningInfo r' = Some ri \<and> firefox ri = Some p
            \<and> Run (binaryArgs (params r)) (Inr ri) \<in> set (pre1 @ pre))"
      using n(5) p1(4) by auto
    show ?thesis using 1 2 3 4 5 by blast
  qed
qed

lemma demo_run_ab:
  "run demo_env (constructor (demo_params [''/ext/a'', ''/ext/b''])) []
     = (Inr (), demo_runner, demo_trace)"
  by (simp add: run_defs demo_runner_def demo_trace_def)

lemma demo_run_ac:
  "run demo_env (constructor (demo_params [''/ext/a'', ''/ext/c''])) [] =
     (Inl missing_id_error,
      \<lparr>params = demo_params [''/ext/a'', ''/ext/c''], profile = Some 3,
       reloadableExtensions = [(''/ext/a'', ''a@id'')], remoteFirefox = Some 5,
       runningInfo = Some \<lparr>firefox = Some 7, debuggerPort = 6000\<rparr>, cleanupCallbacks = []\<rparr>,
      [CreateProfile (Inr 3), Run [] (Inr \<lparr>firefox = Some 7, debuggerPort = 6000\<rparr>),
       OnClose 7, FirefoxClient 6000 (Inr 5),
       InstallTemporaryAddon 5 ''/ext/a'' False (Inr (Some ''a@id'')),
       InstallTemporaryAddon 5 ''/ext/c'' False (Inr (Some []))])"
  by (simp add: run_defs missing_id_error_def)

text \<open>
  Claim C1, as amended. After \<open>run\<close>, in whatever way it ends, the keys of
  \<open>reloadableExtensions\<close> are the keys it had before together with the source
  directories whose temporary install, during this run, resolved with a non-empty addon
  id. A rejected install and an install that resolves without an id add no key, and
  with \<open>preInstall\<close> the map is left as it was.
\<close>

theorem reloadable_keys_are_installs_with_id:
  assumes "run env r w = (res, r', w')"
  shows "\<exists>new. w' = w @ new
     \<and> fst ` set (reloadableExtensions r')
         = fst ` set (reloadableExtensions r) \<union> set (installed new)
     \<and> (preInstall (params r) \<longrightarrow>
           reloadableExtensions r' = reloadableExtensions r \<and> installed new = [])"
proof -
  from run_trace [OF assms] obtain pre new where n:
    "w' = w @ pre @ new" "\<forall>ev \<in> set pre. \<not> temp_install ev"
    "install_post (fst ` set (reloadableExtensions r)) res
       (fst ` set (reloadableExtensions r')) new"
    "preInstall (params r) \<longrightarrow> new = [] \<and> reloadableExtensions r' = reloadableExtensions r"
    by blast
  have i: "installed (pre @ new) = installed new"
    using n(2) by (rule installed_only_temp)
  have k: "fst ` set (reloadableExtensions r')
         = fst ` set (reloadableExtensions r) \<union> set (installed (pre @ new))"
    using n(3) unfolding i install_post_def by blast
  have p: "preInstall (params r) \<longrightarrow>
           reloadableExtensions r' = reloadableExtensions r \<and> installed (pre @ new) = []"
    using n(4) i by auto
  show ?thesis using n(1) k p by blast
qed

theorem reloadable_keys_are_installs_with_id_witness:
  "\<exists>res r' w'. run demo_env (constructor (demo_params [''/ext/a'', ''/ext/c''])) [] = (res, r', w')
     \<and> fst ` set (reloadableExtensions r') = {''/ext/a''}
     \<and> installed w' = [''/ext/a'']"
proof -
  let ?r = "constructor (demo_params [''/ext/a'', ''/ext/c''])"
  obtain res r' w' where h: "run demo_env ?r [] = (res, r', w')"
    by (cases "run demo_env ?r []") auto
  from reloadable_keys_are_installs_with_id [OF h] obtain new where n: "w' = [] @ new"
    "fst ` set (reloadableExtensions r') = fst ` set (reloadableExtensions ?r) \<union> set (installed new)"
    by blast
  have "installed w' = [''/ext/a'']" using h [unfolded demo_run_ac] by auto
  with n h show ?thesis by (simp add: constructor_def)
qed

text \<open>
  The claim as it is stated fails: on \<open>/ext/a\<close> and \<open>/ext/c\<close> the temporary install of
  \<open>/ext/c\<close> resolves over the session (with an empty id), and \<open>/ext/c\<close> is no key of
  the map.
\<close>

theorem resolved_install_without_key:
  "''/ext/c'' \<in> set (resolved (snd (snd (run demo_env
        (constructor (demo_params [''/ext/a'', ''/ext/c''])) []))))
   \<and> ''/ext/c'' \<notin> fst ` set (reloadableExtensions (fst (snd (run demo_env
        (constructor (demo_params [''/ext/a'', ''/ext/c''])) []))))"
  by (simp add: demo_run_ac)

text \<open>
  Claim C10. If, during \<open>run\<close>, the temporary install of a source directory resolves
  with an absent or empty addon id, then \<open>preInstall\<close> was false, \<open>run\<close> throws the
  \<open>WebExtError\<close> "Unexpected missing addonId in the installAsTemporaryAddon result",
  that install is the last thing the run did (no later extension is installed), and the
  keys of \<open>reloadableExtensions\<close> are those it had before the run together with the
  directories installed before: the failed install adds none.
\<close>

theorem missing_addonId_aborts_run:
  assumes "run env r w = (res, r', w @ new)"
    and "InstallTemporaryAddon s d dt (Inr a) \<in> set new"
    and "missing_addonId a"
  shows "res = Inl missing_id_error \<and> \<not> preInstall (params r)
     \<and> (\<exists>before. new = before @ [InstallTemporaryAddon s d dt (Inr a)]
           \<and> fst ` set (reloadableExtensions r')
               = fst ` set (reloadableExtensions r) \<union> set (installed before))"
proof -
  let ?ev = "InstallTemporaryAddon s d dt (Inr a)"
  from run_trace [OF assms(1)] obtain pre new0 where n:
    "w @ new = w @ pre @ new0" "\<forall>ev \<in> set pre. \<not> temp_install ev"
    "install_post (fst ` set (reloadableExtensions r)) res
       (fst ` set (reloadableExtensions r')) new0"
    "preInstall (params r) \<longrightarrow> new0 = [] \<and> reloadableExtensions r' = reloadableExtensions r"
    by blast
  have new: "new = pre @ new0" using n(1) by simp
  have "?ev \<notin> set pre" using n(2) by fastforce
  with assms(2) new have in0: "?ev \<in> set new0" by simp
  have wi: "without_id ?ev" using assms(3) by simp
  from n(3) in0 wi obtain before where b: "res = Inl missing_id_error"
    "new0 = before @ [?ev]"
    "fst ` set (reloadableExtensions r')
       = fst ` set (reloadableExtensions r) \<union> set (installed before)"
    unfolding install_post_def by blast
  have 1: "\<not> preInstall (params r)" using n(4) in0 by auto
  have 2: "new = (pre @ before) @ [?ev]" using new b(2) by simp
  have 3: "fst ` set (reloadableExtensions r')
       = fst ` set (reloadableExtensions r) \<union> set (installed (pre @ before))"
    using b(3) installed_only_temp [OF n(2)] by simp
  show ?thesis using b(1) 1 2 3 by blast
qed

theorem missing_addonId_aborts_run_witness:
  "run demo_env (constructor (demo_params [''/ext/a'', ''/ext/c''])) []
     = (Inl missing_id_error, fst (snd (run demo_env
          (constructor (demo_params [''/ext/a'', ''/ext/c''])) [])),
        [CreateProfile (Inr 3), Run [] (Inr \<lparr>firefox = Some 7, debuggerPort = 6000\<rparr>),
         OnClose 7, FirefoxClient 6000 (Inr 5),
         InstallTemporaryAddon 5 ''/ext/a'' False (Inr (Some ''a@id'')),
         InstallTemporaryAddon 5 ''/ext/c'' False (Inr (Some []))])
   \<and> missing_addonId (Some [])
   \<and> fst ` set (reloadableExtensions (fst (snd (run demo_env
          (constructor (demo_params [''/ext/a'', ''/ext/c''])) [])))) = {''/ext/a''}"
proof -
  let ?r = "constructor (demo_params [''/ext/a'', ''/ext/c''])"
  let ?new = "[CreateProfile (Inr 3), Run [] (Inr \<lparr>firefox = Some 7, debuggerPort = 6000\<rparr>),
         OnClose 7, FirefoxClient 6000 (Inr 5),
         InstallTemporaryAddon 5 ''/ext/a'' False (Inr (Some ''a@id'')),
         InstallTemporaryAddon 5 ''/ext/c'' False (Inr (Some []))]"
  have h: "run demo_env ?r [] = (Inl missing_id_error, fst (snd (run demo_env ?r [])), [] @ ?new)"
    by (simp add: demo_run_ac)
  have i: "InstallTemporaryAddon 5 ''/ext/c'' False (Inr (Some [])) \<in> set ?new" by simp
  have m: "missing_addonId (Some [])" by (simp add: missing_addonId_def)
  from missing_addonId_aborts_run [OF h i m] obtain before where b:
    "?new = before @ [InstallTemporaryAddon 5 ''/ext/c'' False (Inr (Some []))]"
    "fst ` set (reloadableExtensions (fst (snd (run demo_env ?r []))))
       = fst ` set (reloadableExtensions ?r) \<union> set (installed before)"
    by blast
  from b(1) have "before = butlast ?new" by (metis butlast_snoc)
  then have "installed before = [''/ext/a'']" by simp
  with b(2) have "fst ` set (reloadableExtensions (fst (snd (run demo_env ?r [])))) = {''/ext/a''}"
    by (simp add: constructor_def)
  with h m show ?thesis by simp
qed

text \<open>
  Claim C6. \<open>exit\<close> throws the \<open>WebExtError\<close> "No firefox instance is currently
  running" (the spec's ConfigurationError) on a runner that was never run, and whenever
  \<open>runningInfo\<close> or its process handle is absent; runner and trace are then unchanged.
  After a \<open>run\<close> that returned normally the process handle of the launch is present,
  and \<open>exit\<close> sends it the kill signal and does nothing else: the runner is unchanged
  and no cleanup callback is called.
\<close>

theorem exit_kills_tracked_process:
  "exit (constructor p) w
      = (Inl (WebExtError ''No firefox instance is currently running''), constructor p, w)
   \<and> (runningInfo r = None \<or> (\<exists>ri. runningInfo r = Some ri \<and> firefox ri = None) \<longrightarrow>
        exit r w
          = (Inl (WebExtError ''No firefox instance is currently running''), r, w))
   \<and> (run env r0 w0 = (Inr (), r, w) \<longrightarrow>
        (\<exists>ri proc. runningInfo r = Some ri \<and> firefox ri = Some proc
           \<and> Run (binaryArgs (params r0)) (Inr ri) \<in> set w
           \<and> exit r w = (Inr (), r, w @ [Kill proc])
           \<and> invoked [Kill proc] = []))"
proof (intro conjI impI)
  show "exit (constructor p) w
      = (Inl (WebExtError ''No firefox instance is currently running''), constructor p, w)"
    by (simp add: exit_def constructor_def)
next
  assume "runningInfo r = None \<or> (\<exists>ri. runningInfo r = Some ri \<and> firefox ri = None)"
  then show "exit r w
          = (Inl (WebExtError ''No firefox instance is currently running''), r, w)"
    by (auto simp: exit_def)
next
  assume a: "run env r0 w0 = (Inr (), r, w)"
  from run_trace [OF a] obtain pre new ri proc where n:
    "w = w0 @ pre @ new" "runningInfo r = Some ri" "firefox ri = Some proc"
    "Run (binaryArgs (params r0)) (Inr ri) \<in> set pre"
    by blast
  have "exit r w = (Inr (), r, w @ [Kill proc])"
    using n(2,3) by (simp add: exit_def)
  then show "\<exists>ri proc. runningInfo r = Some ri \<and> firefox ri = Some proc
           \<and> Run (binaryArgs (params r0)) (Inr ri) \<in> set w
           \<and> exit r w = (Inr (), r, w @ [Kill proc])
           \<and> invoked [Kill proc] = []"
    using n by auto
qed

theorem exit_kills_tracked_process_witness:
  "exit (constructor (demo_params [''/ext/a'', ''/ext/b''])) []
     = (Inl (WebExtError ''No firefox instance is currently running''),
        constructor (demo_params [''/ext/a'', ''/ext/b'']), [])
   \<and> run demo_env (constructor (demo_params [''/ext/a'', ''/ext/b''])) []
       = (Inr (), demo_runner, demo_trace)
   \<and> exit demo_runner demo_trace = (Inr (), demo_runner, demo_trace @ [Kill 7])"
proof -
  let ?r0 = "constructor (demo_params [''/ext/a'', ''/ext/b''])"
  have n: "runningInfo ?r0 = None" by (simp add: constructor_def)
  from exit_kills_tracked_process [of "demo_params [''/ext/a'', ''/ext/b'']" "[]" ?r0 demo_env ?r0 "[]"]
  have 1: "exit ?r0 [] = (Inl (WebExtError ''No firefox instance is currently running''), ?r0, [])"
    by blast
  from exit_kills_tracked_process
         [of "demo_params []" demo_trace demo_runner demo_env ?r0 "[]"] demo_run_ab
  obtain ri proc where k: "runningInfo demo_runner = Some ri" "firefox ri = Some proc"
    "exit demo_runner demo_trace = (Inr (), demo_runner, demo_trace @ [Kill proc])"
    by blast
  from k(1) k(2) have "proc = 7" by (auto simp: demo_runner_def)
  with 1 k(3) demo_run_ab show ?thesis by simp
qed

section \<open>Facts about the path filter\<close>

subsection \<open>Splitting, joining and resolving\<close>

lemma split_on_nonempty: "split_on c s \<noteq> []"
  by (induction s) (auto split: list.splits)

lemma split_on_append: "split_on c (a @ c # b) = split_on c a @ split_on c b"
proof (induction a)
  case Nil
  show ?case by simp
next
  case (Cons x a)
  show ?case
  proof (cases "x = c")
    case True
    then show ?thesis by (simp add: Cons)
  next
    case False
    obtain s ss where s: "split_on c a = s # ss"
      using split_on_nonempty [of c a] by (cases "split_on c a") auto
    show ?thesis using False by (simp add: Cons s)
  qed
qed

lemma split_on_free: "c \<notin> set s \<Longrightarrow> split_on c s = [s]"
  by (induction s) auto

lemma split_on_segs_free: "t \<in> set (split_on c s) \<Longrightarrow> c \<notin> set t"
proof (induction s arbitrary: t)
  case Nil
  then show ?case by simp
next
  case (Cons x s)
  obtain u us where u: "split_on c s = u # us"
    using split_on_nonempty [of c s] by (cases "split_on c s") auto
  show ?case
  proof (cases "x = c")
    case True
    with Cons show ?thesis by auto
  next
    case False
    with Cons.prems u have "t = x # u \<or> t \<in> set us" by simp
    then show ?thesis
    proof
      assume "t = x # u"
      moreover have "c \<notin> set u" using Cons.IH [of u] u by simp
      ultimately show ?thesis using False by simp
    next
      assume "t \<in> set us"
      then show ?thesis using Cons.IH [of t] u by simp
    qed
  qed
qed

lemma split_join:
  "segs \<noteq> [] \<Longrightarrow> \<forall>s \<in> set segs. sep \<notin> set s \<Longrightarrow> split_on sep (join segs) = segs"
proof (induction segs rule: join.induct)
  case 1
  then show ?case by simp
next
  case (2 s)
  then show ?case by (simp add: split_on_free)
next
  case (3 s t ss)
  then show ?case by (simp add: split_on_append split_on_free)
qed

lemma norm_segs_append:
  "norm_segs a res (p @ sep # q) = norm_segs a (norm_segs a res p) q"
  by (simp add: norm_segs_def split_on_append)

lemma norm_segs_Nil: "norm_segs a res [] = res"
  by (simp add: norm_segs_def norm_step_def)

lemma clean_simps:
  "clean []"
  "clean (s # segs) = (s \<noteq> [] \<and> sep \<notin> set s \<and> s \<noteq> ''.'' \<and> s \<noteq> ''..'' \<and> clean segs)"
  "clean (xs @ ys) = (clean xs \<and> clean ys)"
  by (auto simp: clean_def)

lemma clean_butlast: "clean xs \<Longrightarrow> clean (butlast xs)"
  by (induction xs) (auto simp: clean_simps)

lemma clean_norm_step:
  "clean res \<Longrightarrow> sep \<notin> set seg \<Longrightarrow> clean (norm_step False res seg)"
  by (auto simp: norm_step_def clean_simps clean_butlast)

lemma clean_foldl_norm:
  "clean res \<Longrightarrow> \<forall>s \<in> set xs. sep \<notin> set s \<Longrightarrow> clean (foldl (norm_step False) res xs)"
  by (induction xs arbitrary: res) (auto simp: clean_norm_step)

lemma clean_norm_segs: "clean res \<Longrightarrow> clean (norm_segs False res p)"
  unfolding norm_segs_def using split_on_segs_free by (intro clean_foldl_norm) auto

lemma foldl_norm_clean: "clean xs \<Longrightarrow> foldl (norm_step a) res xs = res @ xs"
  by (induction xs arbitrary: res) (auto simp: clean_simps norm_step_def)

lemma norm_segs_join: "clean segs \<Longrightarrow> norm_segs a res (join segs) = res @ segs"
proof (cases "segs = []")
  case True
  then show ?thesis by (simp add: norm_segs_Nil)
next
  case False
  assume c: "clean segs"
  then have "\<forall>s \<in> set segs. sep \<notin> set s" by (auto simp: clean_def list_all_iff)
  with False have "split_on sep (join segs) = segs" by (rule split_join)
  then show ?thesis using c by (simp add: norm_segs_def foldl_norm_clean)
qed

lemma norm_segs_abs_join: "clean segs \<Longrightarrow> norm_segs a res (sep # join segs) = res @ segs"
  using norm_segs_append [of a res "[]" "join segs"]
  by (simp add: norm_segs_Nil norm_segs_join)

lemma segments_join: "clean segs \<Longrightarrow> segments (sep # join segs) = segs"
proof (cases "segs = []")
  case True
  then show ?thesis by (simp add: segments_def)
next
  case False
  assume c: "clean segs"
  then have f: "\<forall>s \<in> set segs. sep \<notin> set s" and n: "\<forall>s \<in> set segs. s \<noteq> []"
    by (auto simp: clean_def list_all_iff)
  from False f have "split_on sep (join segs) = segs" by (rule split_join)
  then have "segments (sep # join segs) = filter (\<lambda>s. s \<noteq> []) segs"
    by (simp add: segments_def)
  also have "\<dots> = segs" using n by (simp add: filter_id_conv)
  finally show ?thesis .
qed

lemma resolve_args_absolute:
  "isAbsolute cwd \<Longrightarrow> snd (resolve_args (ps @ [cwd]) acc) = True"
  by (induction ps arbitrary: acc) (auto simp: isAbsolute_def)

lemma clean_resolve_segs: "clean (resolve_segs cwd paths)"
  by (simp add: resolve_segs_def clean_norm_segs clean_simps)

lemma path_resolve_segs:
  assumes "isAbsolute cwd"
  shows "path_resolve cwd paths = sep # join (resolve_segs cwd paths)"
proof -
  obtain rp b where r: "resolve_args (rev paths @ [cwd]) [] = (rp, b)"
    by (cases "resolve_args (rev paths @ [cwd]) []") auto
  with resolve_args_absolute [OF assms, of "rev paths" "[]"] have "b" by simp
  with r show ?thesis
    by (simp add: path_resolve_def resolve_segs_def normalizeString_def)
qed

lemma segments_path_resolve:
  "isAbsolute cwd \<Longrightarrow> segments (path_resolve cwd paths) = resolve_segs cwd paths"
  by (simp add: path_resolve_segs segments_join clean_resolve_segs)

lemma resolve_segs_one:
  "isAbsolute cwd \<Longrightarrow> resolve_segs cwd [p] =
     (if p = [] then norm_segs False [] cwd
      else if hd p = sep then norm_segs False [] p
      else norm_segs False (norm_segs False [] cwd) p)"
  by (simp add: resolve_segs_def isAbsolute_def norm_segs_append norm_segs_Nil)

subsection \<open>\<open>isSubPath\<close> is the strict prefix order on resolved segments\<close>

lemma join_Cons: "join (s # segs) = (if segs = [] then s else s @ sep # join segs)"
  by (cases segs) auto

lemma not_startsWith_free: "sep \<notin> set t \<Longrightarrow> \<not> startsWith t (''..'' @ [sep])"
proof
  assume f: "sep \<notin> set t" and "startsWith t (''..'' @ [sep])"
  then have "take (Suc (Suc (Suc 0))) t = ''../''" by (simp add: startsWith_def)
  then have "sep \<in> set (take (Suc (Suc (Suc 0))) t)" by simp
  then have "sep \<in> set t" by (rule in_set_takeD)
  with f show False by simp
qed

lemma not_startsWith_seg:
  assumes "sep \<notin> set t" and "t \<noteq> ''..''"
  shows "\<not> startsWith (t @ sep # X) (''..'' @ [sep])"
proof
  assume "startsWith (t @ sep # X) (''..'' @ [sep])"
  then have s: "take (Suc (Suc (Suc 0))) (t @ sep # X) = ''../''"
    by (simp add: startsWith_def)
  show False
  proof (cases t)
    case Nil
    with s show False by simp
  next
    case (Cons a t1)
    show False
    proof (cases t1)
      case Nil
      with s Cons show False by simp
    next
      case (Cons b t2)
      show False
      proof (cases t2)
        case Nil
        with s \<open>t = a # t1\<close> \<open>t1 = b # t2\<close> assms(2) show False by simp
      next
        case (Cons c t3)
        with s \<open>t = a # t1\<close> \<open>t1 = b # t2\<close> assms(1) show False by simp
      qed
    qed
  qed
qed

lemma relate_up:
  "join (replicate (Suc k) ''..'' @ tr) = ''..''
     \<or> startsWith (join (replicate (Suc k) ''..'' @ tr)) (''..'' @ [sep])"
  by (simp add: join_Cons startsWith_def)

lemma relate_down:
  assumes "clean tr" and "tr \<noteq> []"
  shows "join tr \<noteq> [] \<and> join tr \<noteq> ''..'' \<and> \<not> startsWith (join tr) (''..'' @ [sep])"
proof -
  from assms obtain t r where tr: "tr = t # r" by (cases tr) auto
  with assms(1) have t: "t \<noteq> []" "sep \<notin> set t" "t \<noteq> ''..''"
    by (simp_all add: clean_simps)
  show ?thesis
  proof (cases "r = []")
    case True
    with tr t not_startsWith_free [of t] show ?thesis by simp
  next
    case False
    then have j: "join tr = t @ sep # join r" by (simp add: tr join_Cons)
    have "sep \<in> set (join tr)" by (simp add: j)
    then have "join tr \<noteq> ''..''" by auto
    with j t not_startsWith_seg [of t "join r"] show ?thesis by simp
  qed
qed

lemma clean_drop: "clean xs \<Longrightarrow> clean (drop n xs)"
  by (auto simp: clean_def list_all_iff dest: in_set_dropD)

lemma isSubPath_relate:
  assumes "clean ts"
  shows "(let relate = join (replicate (length fs - length (longest_common_prefix fs ts)) ''..''
                             @ drop (length (longest_common_prefix fs ts)) ts)
          in if relate = [] then False else if relate = ''..'' then False
             else \<not> startsWith relate (''..'' @ [sep]))
         = strict_prefix fs ts"
proof -
  define L where "L = longest_common_prefix fs ts"
  obtain fr where fr: "fs = L @ fr"
    using longest_common_prefix_prefix1 [of fs ts] by (auto simp: L_def prefix_def)
  obtain tr where tr: "ts = L @ tr"
    using longest_common_prefix_prefix2 [of fs ts] by (auto simp: L_def prefix_def)
  have k: "length fs - length L = length fr" "drop (length L) ts = tr"
    by (simp_all add: fr tr)
  have ctr: "clean tr" using assms tr by (simp add: clean_simps)
  have max: "prefix fs ts \<longleftrightarrow> fr = []"
  proof
    assume "prefix fs ts"
    then have "prefix fs L" unfolding L_def
      by (intro longest_common_prefix_max_prefix) simp_all
    then show "fr = []" using fr by (auto simp: prefix_def)
  next
    assume "fr = []"
    then show "prefix fs ts" using fr tr by simp
  qed
  show ?thesis
  proof (cases fr)
    case Nil
    then have sp: "strict_prefix fs ts \<longleftrightarrow> tr \<noteq> []"
      using fr tr by (auto simp: strict_prefix_def)
    show ?thesis
    proof (cases "tr = []")
      case True
      with Nil sp show ?thesis unfolding L_def [symmetric] k by simp
    next
      case False
      with relate_down [OF ctr] Nil sp show ?thesis
        unfolding L_def [symmetric] k by simp
    qed
  next
    case (Cons f fr')
    then have "\<not> strict_prefix fs ts" using max by (auto simp: strict_prefix_def)
    moreover have "length fr = Suc (length fr')" using Cons by simp
    ultimately show ?thesis
      unfolding L_def [symmetric] k using relate_up [of "length fr'" tr]
      by (auto simp: Let_def)
  qed
qed

lemma isSubPath_strict_prefix:
  assumes "isAbsolute cwd"
  shows "isSubPath cwd src target
           = strict_prefix (resolve_segs cwd [src]) (resolve_segs cwd [target])"
proof -
  let ?fs = "resolve_segs cwd [src]" and ?ts = "resolve_segs cwd [target]"
  have s: "segments (path_resolve cwd [src]) = ?fs" "segments (path_resolve cwd [target]) = ?ts"
    using assms by (simp_all add: segments_path_resolve)
  show ?thesis
  proof (cases "src = target")
    case True
    then show ?thesis by (simp add: isSubPath_def path_relative_def)
  next
    case False
    show ?thesis
    proof (cases "path_resolve cwd [src] = path_resolve cwd [target]")
      case True
      then have "?fs = ?ts" using s by simp
      with True False show ?thesis by (simp add: isSubPath_def path_relative_def)
    next
      case ne: False
      have "isSubPath cwd src target =
        (let relate = join (replicate (length ?fs - length (longest_common_prefix ?fs ?ts)) ''..''
                             @ drop (length (longest_common_prefix ?fs ?ts)) ?ts)
          in if relate = [] then False else if relate = ''..'' then False
             else \<not> startsWith relate (''..'' @ [sep]))"
        using False ne by (simp add: isSubPath_def path_relative_def s Let_def)
      also have "\<dots> = strict_prefix ?fs ?ts"
        by (rule isSubPath_relate) (rule clean_resolve_segs)
      finally show ?thesis .
    qed
  qed
qed

lemma resolve_segs_child:
  assumes "isAbsolute cwd" and "D \<noteq> []"
  shows "resolve_segs cwd [D @ sep # x] = norm_segs False (resolve_segs cwd [D]) x"
proof -
  have h: "hd (D @ sep # x) = hd D" "D @ sep # x \<noteq> []" using assms(2) by simp_all
  show ?thesis
    using assms by (simp add: resolve_segs_one h norm_segs_append)
qed

lemma foldl_norm_names:
  "''..'' \<notin> set xs \<Longrightarrow>
   foldl (norm_step a) b xs = b @ filter (\<lambda>s. s \<noteq> [] \<and> s \<noteq> ''.'') xs"
  by (induction xs arbitrary: b) (auto simp: norm_step_def)

lemma norm_segs_names:
  "''..'' \<notin> set (split_on sep x) \<Longrightarrow> norm_segs a b x = b @ names x"
  by (simp add: norm_segs_def names_def foldl_norm_names)

lemma norm_segs_parent: "clean b \<Longrightarrow> norm_segs False b ''..'' = butlast b"
proof (cases "b = []")
  case True
  then show ?thesis by (simp add: norm_segs_def norm_step_def)
next
  case False
  assume c: "clean b"
  from False have "last b \<in> set b" by simp
  with c have "last b \<noteq> ''..''" by (auto simp: clean_def list_all_iff)
  with False show ?thesis by (simp add: norm_segs_def norm_step_def)
qed

lemma hd_split_up:
  assumes "hd (split_on sep s) = ''..''"
  shows "s = ''..'' \<or> startsWith s (''..'' @ [sep])"
proof (cases "sep \<in> set s")
  case False
  with assms show ?thesis by (simp add: split_on_free)
next
  case True
  then obtain a b where ab: "s = a @ sep # b" "sep \<notin> set a"
    by (auto dest: split_list_first)
  then have "split_on sep s = a # split_on sep b"
    by (simp add: split_on_append split_on_free)
  with assms have "a = ''..''" by simp
  with ab show ?thesis by (simp add: startsWith_def)
qed

text \<open>
  Claim C7, as amended. For every directory \<open>D\<close>: \<open>isSubPath(D, D)\<close> is false; a target
  whose relative path from \<open>D\<close> begins with the segment \<open>..\<close> is not a sub-path; the
  parent \<open>D/..\<close> is not a sub-path; and \<open>isSubPath(D, D/x)\<close> is true for every
  non-empty \<open>D\<close> and every \<open>x\<close> that has no segment \<open>..\<close> and at least one segment other
  than the empty one and \<open>.\<close>. (The working directory is an absolute path, as
  \<open>process.cwd()\<close> always is.)
\<close>

theorem isSubPath_properties:
  "\<not> isSubPath cwd D D
   \<and> (hd (split_on sep (path_relative cwd D T)) = ''..'' \<longrightarrow> \<not> isSubPath cwd D T)
   \<and> (isAbsolute cwd \<longrightarrow> \<not> isSubPath cwd D (D @ ''/..''))
   \<and> (isAbsolute cwd \<and> D \<noteq> [] \<and> ''..'' \<notin> set (split_on sep x) \<and> names x \<noteq> [] \<longrightarrow>
        isSubPath cwd D (D @ sep # x))"
proof (intro conjI impI)
  show "\<not> isSubPath cwd D D" by (simp add: isSubPath_def path_relative_def)
next
  assume "hd (split_on sep (path_relative cwd D T)) = ''..''"
  from hd_split_up [OF this] show "\<not> isSubPath cwd D T"
    by (auto simp: isSubPath_def Let_def)
next
  assume a: "isAbsolute cwd"
  show "\<not> isSubPath cwd D (D @ ''/..'')"
  proof (cases "D = []")
    case True
    have "resolve_segs cwd [''/..''] = []"
      using a by (simp add: resolve_segs_one norm_segs_def norm_step_def)
    with a True show ?thesis by (simp add: isSubPath_strict_prefix)
  next
    case False
    have "resolve_segs cwd [D @ ''/..''] = butlast (resolve_segs cwd [D])"
      using resolve_segs_child [OF a False, of "''..''"]
      by (simp add: norm_segs_parent clean_resolve_segs)
    moreover have "prefix (butlast (resolve_segs cwd [D])) (resolve_segs cwd [D])"
      by (rule prefixeq_butlast)
    ultimately show ?thesis using a by (auto simp: isSubPath_strict_prefix)
  qed
next
  assume h: "isAbsolute cwd \<and> D \<noteq> [] \<and> ''..'' \<notin> set (split_on sep x) \<and> names x \<noteq> []"
  then have "resolve_segs cwd [D @ sep # x] = resolve_segs cwd [D] @ names x"
    by (simp add: resolve_segs_child norm_segs_names)
  with h show "isSubPath cwd D (D @ sep # x)"
    by (auto simp: isSubPath_strict_prefix strict_prefix_def)
qed

theorem isSubPath_properties_witness:
  "\<not> isSubPath ''/home'' ''/proj'' ''/proj''
   \<and> \<not> isSubPath ''/home'' ''/proj'' ''/other''
   \<and> \<not> isSubPath ''/home'' ''/proj'' (''/proj'' @ ''/..'')
   \<and> isSubPath ''/home'' ''/proj'' (''/proj'' @ sep # ''web-ext-artifacts'')"
proof -
  have 1: "isAbsolute ''/home''" by code_simp
  have 2: "hd (split_on sep (path_relative ''/home'' ''/proj'' ''/other'')) = ''..''"
    by code_simp
  have 3: "''/proj'' \<noteq> []" by simp
  have 4: "''..'' \<notin> set (split_on sep ''web-ext-artifacts'')" by code_simp
  have 5: "names ''web-ext-artifacts'' \<noteq> []" by code_simp
  from isSubPath_properties
         [where cwd = "''/home''" and D = "''/proj''" and T = "''/other''"
            and x = "''web-ext-artifacts''"]
  show ?thesis using 1 2 3 4 5 by blast
qed

text \<open>
  The claim as it is stated fails for \<open>x = ..\<close>, which is not empty: \<open>/a/..\<close> is the
  root, and the root is not a sub-path of \<open>/a\<close>.
\<close>

theorem isSubPath_parent_segment:
  "''..'' \<noteq> [] \<and> \<not> isSubPath ''/home'' ''/a'' (''/a'' @ sep # ''..'')"
  by code_simp

subsection \<open>Matching\<close>

lemma modelled_code [code]:
  "modelled pattern =
     (isAbsolute pattern \<and> int (length pattern) \<le> 65536 \<and> \<not> js_space (last pattern)
      \<and> list_all (\<lambda>c. \<not> other_syntax c) pattern)"
  by (simp add: modelled_def)

lemma squeeze_free: "sep \<notin> set s \<Longrightarrow> squeeze (s @ t) = s @ squeeze t"
  by (induction s) auto

lemma join_hd: "s \<noteq> [] \<Longrightarrow> join (s # segs) \<noteq> [] \<and> hd (join (s # segs)) = hd s"
  by (cases segs) auto

lemma squeeze_join:
  "\<forall>s \<in> set segs. s \<noteq> [] \<and> sep \<notin> set s \<Longrightarrow> squeeze (join segs) = join segs"
proof (induction segs rule: join.induct)
  case 1
  show ?case by simp
next
  case (2 s)
  then show ?case using squeeze_free [of s "[]"] by simp
next
  case (3 s t ss)
  from 3 have t0: "t \<noteq> []" "sep \<notin> set t" by simp_all
  have t: "t \<noteq> []" "hd t \<noteq> sep" using t0 by (metis hd_in_set)+
  with join_hd [of t ss] have h: "join (t # ss) \<noteq> []" "hd (join (t # ss)) \<noteq> sep" by simp_all
  from 3 have ih: "squeeze (join (t # ss)) = join (t # ss)" by simp
  have "squeeze (join (s # t # ss)) = s @ squeeze (sep # join (t # ss))"
    using 3(2) by (simp add: squeeze_free)
  also have "\<dots> = s @ sep # join (t # ss)" using h ih by simp
  finally show ?case by simp
qed

lemma slash_split_resolved:
  assumes "\<forall>s \<in> set segs. s \<noteq> [] \<and> sep \<notin> set s" and "segs \<noteq> []"
  shows "slash_split (sep # join segs) = [] # segs"
proof -
  obtain s ss where segs: "segs = s # ss" using assms(2) by (cases segs) auto
  with assms(1) have s0: "s \<noteq> []" "sep \<notin> set s" by simp_all
  have "s \<noteq> []" "hd s \<noteq> sep" using s0 by (metis hd_in_set)+
  with join_hd [of s ss] segs have h: "join segs \<noteq> []" "hd (join segs) \<noteq> sep" by simp_all
  then have "squeeze (sep # join segs) = sep # squeeze (join segs)" by simp
  also have "\<dots> = sep # join segs" using assms(1) by (simp add: squeeze_join)
  finally have "slash_split (sep # join segs) = [] # split_on sep (join segs)"
    by (simp add: slash_split_def)
  also have "split_on sep (join segs) = segs"
    using assms by (intro split_join) auto
  finally show ?thesis .
qed

lemma matchOne_literal: "matchOne fs (map Literal ps) = (fs = ps \<or> fs = ps @ [[]])"
proof (induction ps arbitrary: fs)
  case Nil
  show ?case by simp
next
  case (Cons p ps)
  show ?case by (cases fs) (auto simp: Cons)
qed

lemma matchOne_globstar_end:
  "rest \<noteq> [] \<Longrightarrow> matchOne rest [GLOBSTAR] = list_all (\<lambda>x. \<not> dotty x) rest"
  by (cases rest) auto

lemma wild_match_skip: "wild_match ps fs \<Longrightarrow> wild_match (CHR ''*'' # ps) fs"
  by (cases fs) auto

lemma wild_match_refl: "wild_match s s"
  by (induction s) (auto simp: wild_match_skip)

lemma part_match_self:
  assumes "s \<noteq> []" and "s \<noteq> ''**''" and "\<not> (has_magic s \<and> line_terminator (hd s))"
  shows "parse s = Literal s \<or> (parse s = Wildcard s \<and> part_match (Wildcard s) s)"
proof (cases "has_magic s")
  case False
  with assms(2) show ?thesis by (simp add: parse_def)
next
  case True
  with assms(3) have "\<not> line_terminator (hd s)" by simp
  moreover have "\<not> ((hd s = CHR ''*'' \<or> hd s = CHR ''?'') \<and> dotty s)"
    by (auto simp: dotty_def)
  ultimately have "part_match (Wildcard s) s" using assms(1) by (simp add: wild_match_refl)
  with True assms(2) show ?thesis by (simp add: parse_def)
qed

lemma matchOne_self_prefix:
  assumes "\<forall>s \<in> set ss. s \<noteq> [] \<and> s \<noteq> ''**'' \<and> \<not> (has_magic s \<and> line_terminator (hd s))"
  shows "matchOne (ss @ t) (map parse ss @ pat) = matchOne t pat"
  using assms
proof (induction ss)
  case Nil
  show ?case by simp
next
  case (Cons s ss)
  then have ih: "matchOne (ss @ t) (map parse ss @ pat) = matchOne t pat" by simp
  from Cons.prems have "s \<noteq> []" "s \<noteq> ''**''" "\<not> (has_magic s \<and> line_terminator (hd s))"
    by simp_all
  from part_match_self [OF this] show ?case
  proof
    assume "parse s = Literal s"
    then show ?thesis by (simp add: ih)
  next
    assume "parse s = Wildcard s \<and> part_match (Wildcard s) s"
    then show ?thesis by (simp add: ih del: part_match.simps)
  qed
qed

lemma minimatch_resolved:
  assumes "clean isegs" and "isegs \<noteq> []"
    and "\<forall>s \<in> set psegs. s \<noteq> [] \<and> sep \<notin> set s" and "psegs \<noteq> []"
    and "modelled (sep # join psegs)"
  shows "minimatch lib (sep # join isegs) (sep # join psegs)
           = Inr (matchOne isegs (map parse psegs))"
proof -
  have i: "\<forall>s \<in> set isegs. s \<noteq> [] \<and> sep \<notin> set s"
    using assms(1) by (auto simp: clean_def list_all_iff)
  have "parse [] = Literal []" by (simp add: parse_def has_magic_def)
  then show ?thesis
    using slash_split_resolved [OF i assms(2)] slash_split_resolved [OF assms(3,4)] assms(5)
    by (simp add: minimatch_def)
qed

subsection \<open>Patterns under a directory\<close>

lemma set_join: "s \<in> set segs \<Longrightarrow> set s \<subseteq> set (join segs)"
  by (induction segs rule: join.induct) auto

lemma set_join_subset: "set (join segs) \<subseteq> insert sep (\<Union> (set ` set segs))"
  by (induction segs rule: join.induct) auto

lemma join_nonempty: "xs \<noteq> [] \<Longrightarrow> last xs \<noteq> [] \<Longrightarrow> join xs \<noteq> []"
  by (induction xs rule: join.induct) auto

lemma last_join: "segs \<noteq> [] \<Longrightarrow> last segs \<noteq> [] \<Longrightarrow> last (join segs) = last (last segs)"
proof (induction segs rule: join.induct)
  case 1
  then show ?case by simp
next
  case (2 s)
  show ?case by simp
next
  case (3 s t ss)
  then have "join (t # ss) \<noteq> []" by (intro join_nonempty) simp_all
  with 3 show ?case by simp
qed

lemma length_join_append:
  "length (join (ss @ t)) \<le> length (join ss) + Suc (length (join t))"
proof (induction ss rule: join.induct)
  case 1
  show ?case by simp
next
  case (2 s)
  show ?case by (cases t) simp_all
next
  case (3 s u ss)
  then show ?case by simp
qed

lemma modelled_under:
  assumes "list_all (\<lambda>c. \<not> other_syntax c) (sep # join ss)"
    and "length (sep # join ss) + Suc (length (join t)) \<le> 65536"
    and "t \<noteq> []" and "last t \<noteq> []" and "\<not> js_space (last (last t))"
    and "\<forall>s \<in> set t. list_all (\<lambda>c. \<not> other_syntax c) s"
  shows "modelled (sep # join (ss @ t))"
proof -
  have ne: "join (ss @ t) \<noteq> []" using assms(3,4) by (intro join_nonempty) simp_all
  have l: "last (sep # join (ss @ t)) = last (last t)"
    using ne last_join [of "ss @ t"] assms(3,4) by simp
  have len: "length (sep # join (ss @ t)) \<le> 65536"
    using length_join_append [of ss t] assms(2) by simp
  have "\<not> other_syntax c" if "c \<in> set (join (ss @ t))" for c
  proof -
    from that set_join_subset [of "ss @ t"]
    have "c = sep \<or> (\<exists>s \<in> set ss. c \<in> set s) \<or> (\<exists>s \<in> set t. c \<in> set s)" by auto
    then show ?thesis
    proof (elim disjE bexE)
      assume "c = sep"
      with assms(1) show ?thesis by simp
    next
      fix s assume "s \<in> set ss" "c \<in> set s"
      then have "c \<in> set (join ss)" using set_join [of s ss] by auto
      with assms(1) show ?thesis by (simp add: list_all_iff)
    next
      fix s assume "s \<in> set t" "c \<in> set s"
      with assms(6) show ?thesis by (auto simp: list_all_iff)
    qed
  qed
  moreover have "\<not> other_syntax sep" using assms(1) by simp
  ultimately have "list_all (\<lambda>c. \<not> other_syntax c) (sep # join (ss @ t))"
    by (simp add: list_all_iff)
  with l len assms(5) show ?thesis by (simp add: modelled_def isAbsolute_def)
qed

subsection \<open>The loop of \<open>multimatch\<close>\<close>

lemma multimatch_loop_all: "multimatch lib item ps = multimatch_loop lib item [] ps"
  by (cases ps) (simp_all add: multimatch_def)

lemma loop_append:
  "multimatch_loop lib item acc (ps @ qs) =
     (case multimatch_loop lib item acc ps of
        Inl e \<Rightarrow> Inl e
      | Inr r \<Rightarrow> multimatch_loop lib item r qs)"
  by (induction ps arbitrary: acc) (auto split: sum.splits)

lemma loop_positive:
  assumes "only_item item acc" and "hd p = sep" and "minimatch lib item p = Inr hit"
  shows "multimatch_loop lib item acc (p # qs)
           = multimatch_loop lib item (if hit then [item] else acc) qs"
proof -
  have u: "array_union acc (if hit then [item] else []) = (if hit then [item] else acc)"
    using assms(1) by (auto simp: only_item_def array_union_def)
  have "hd p \<noteq> CHR ''!''" using assms(2) by simp
  then show ?thesis using assms(3) u by (simp add: minimatch_match_def)
qed

lemma loop_negative:
  assumes "only_item item acc" and "minimatch lib item p = Inr hit"
  shows "multimatch_loop lib item acc ((CHR ''!'' # p) # qs)
           = multimatch_loop lib item (if hit then [] else acc) qs"
proof -
  have "array_differ acc (if hit then [item] else []) = (if hit then [] else acc)"
    using assms(1) by (auto simp: only_item_def array_differ_def)
  then show ?thesis using assms(2) by (simp add: minimatch_match_def)
qed

lemma loop_only_item:
  "only_item item acc \<Longrightarrow> multimatch_loop lib item acc ps = Inr r \<Longrightarrow> only_item item r"
proof (induction ps arbitrary: acc)
  case Nil
  then show ?case by simp
next
  case (Cons p ps)
  have s: "only_item item (array_differ acc m)" "only_item item (array_union acc m)"
    if "m = [] \<or> m = [item]" for m
    using that Cons.prems(1) by (auto simp: only_item_def array_differ_def array_union_def)
  show ?case
  proof (cases "p \<noteq> [] \<and> hd p = CHR ''!''")
    case True
    with Cons.prems(2) obtain hit where
      l: "multimatch_loop lib item (array_differ acc (if hit then [item] else [])) ps = Inr r"
      by (auto simp: minimatch_match_def split: sum.splits)
    have "only_item item (array_differ acc (if hit then [item] else []))"
      by (rule s(1)) simp
    then show ?thesis using l by (rule Cons.IH)
  next
    case False
    with Cons.prems(2) obtain hit where
      l: "multimatch_loop lib item (array_union acc (if hit then [item] else [])) ps = Inr r"
      by (auto simp: minimatch_match_def split: sum.splits)
    have "only_item item (array_union acc (if hit then [item] else []))"
      by (rule s(2)) simp
    then show ?thesis using l by (rule Cons.IH)
  qed
qed

text \<open>
  Patterns that are absolute paths only add: where the loop returns from one result it
  returns from any other, with the path when one of the patterns matches it.
\<close>

lemma loop_positive_tail:
  assumes "\<forall>p \<in> set ps. hd p = sep" and "only_item item acc" and "only_item item acc'"
    and "multimatch_loop lib item acc ps = Inr ms"
  shows "multimatch_loop lib item acc' ps
           = Inr (if list_all (\<lambda>p. minimatch lib item p \<noteq> Inr True) ps then acc' else [item])"
  using assms
proof (induction ps arbitrary: acc acc' ms)
  case Nil
  show ?case by simp
next
  case (Cons p ps)
  have hp: "hd p = sep" and tl: "\<forall>p \<in> set ps. hd p = sep" using Cons.prems(1) by simp_all
  have "hd p \<noteq> CHR ''!''" using hp by simp
  with Cons.prems(4) obtain hit where hit: "minimatch lib item p = Inr hit"
    by (auto simp: minimatch_match_def split: sum.splits)
  have a: "multimatch_loop lib item (if hit then [item] else acc) ps = Inr ms"
    using Cons.prems(4) loop_positive [OF Cons.prems(2) hp hit] by simp
  have o: "only_item item (if hit then [item] else acc)"
    "only_item item (if hit then [item] else acc')"
    using Cons.prems(2,3) by (simp_all add: only_item_def)
  have "multimatch_loop lib item acc' (p # ps)
          = multimatch_loop lib item (if hit then [item] else acc') ps"
    using Cons.prems(3) hp hit by (rule loop_positive)
  also have "\<dots> = Inr (if list_all (\<lambda>p. minimatch lib item p \<noteq> Inr True) ps
                         then (if hit then [item] else acc') else [item])"
    using tl o a by (rule Cons.IH)
  finally show ?case using hit by simp
qed

lemma wantFile_loop:
  "wantFile lib cwd ff filePath =
     (case multimatch_loop lib (resolveWithSourceDir cwd ff filePath) [] (filesToIgnore ff) of
        Inl e \<Rightarrow> Inl e
      | Inr matches \<Rightarrow> Inr (matches = []))"
  by (simp add: wantFile_def Let_def multimatch_loop_all split: sum.splits)

subsection \<open>The filter\<close>

lemma addToIgnoreList_sourceDir:
  "filter_sourceDir (addToIgnoreList cwd ff files) = filter_sourceDir ff"
  by (induction files arbitrary: ff) (auto simp: resolveWithSourceDir_def)

lemma addToIgnoreList_append:
  "addToIgnoreList cwd ff (xs @ ys) = addToIgnoreList cwd (addToIgnoreList cwd ff xs) ys"
  by (induction xs arbitrary: ff) auto

lemma resolve_segs_two:
  assumes "isAbsolute cwd" and "clean ss"
  shows "resolve_segs cwd [sep # join ss, f] =
     (if f = [] then ss else if hd f = sep then norm_segs False [] f
      else norm_segs False ss f)"
proof -
  have n: "norm_segs False [] (sep # join ss) = ss"
    using norm_segs_abs_join [OF assms(2), of False "[]"] by simp
  have a: "\<And>t. norm_segs False [] ((sep # join ss) @ sep # t) = norm_segs False ss t"
    by (simp only: norm_segs_append n)
  show ?thesis
  proof (cases "f = []")
    case True
    then show ?thesis using a [of "[]"] by (simp add: resolve_segs_def norm_segs_Nil)
  next
    case False
    show ?thesis
    proof (cases "hd f = sep")
      case True
      with False show ?thesis
        by (simp add: resolve_segs_def norm_segs_append norm_segs_Nil)
    next
      case nabs: False
      have "resolve_segs cwd [sep # join ss, f]
              = norm_segs False [] ((sep # join ss) @ sep # (f @ [sep]))"
        using False nabs by (simp add: resolve_segs_def)
      also have "\<dots> = norm_segs False ss (f @ sep # [])" by (simp only: a)
      also have "\<dots> = norm_segs False ss f"
        by (simp only: norm_segs_append norm_segs_Nil)
      finally show ?thesis using False nabs by simp
    qed
  qed
qed

lemma path_join_glob:
  assumes "clean segs"
  shows "path_join [sep # join segs, ''**'', ''*''] = sep # join (segs @ [''**'', ''*''])"
proof -
  let ?p = "(sep # join segs) @ sep # ''**/*''"
  have j: "join (filter (\<lambda>p. p \<noteq> []) [sep # join segs, ''**'', ''*'']) = ?p" by simp
  have "norm_segs False [] ?p = norm_segs False (norm_segs False [] (sep # join segs)) ''**/*''"
    by (simp only: norm_segs_append)
  also have "\<dots> = norm_segs False segs ''**/*''"
    using norm_segs_abs_join [OF assms, of False "[]"] by simp
  also have "\<dots> = segs @ [''**'', ''*'']"
    by (simp add: norm_segs_def norm_step_def)
  finally have n: "normalizeString ?p False = join (segs @ [''**'', ''*''])"
    by (simp add: normalizeString_def)
  have ne: "join (segs @ [''**'', ''*'']) \<noteq> []" by (rule join_nonempty) simp_all
  have abs: "isAbsolute ?p" by (simp add: isAbsolute_def)
  have l: "last ?p \<noteq> sep" by simp
  have "path_normalize ?p = sep # join (segs @ [''**'', ''*''])"
    unfolding path_normalize_def using n ne abs l by (simp add: Let_def)
  then show ?thesis unfolding path_join_def j by (simp add: Let_def)
qed

lemma FileFilter_sourceDir:
  "filter_sourceDir (FileFilter cwd base ign srcDir art) = path_resolve cwd [srcDir]"
  by (simp add: FileFilter_def Let_def addToIgnoreList_sourceDir split: option.splits)

lemma resolve_absolute_pattern:
  assumes "isAbsolute cwd" and "clean ss" and "clean ps"
  shows "path_resolve cwd [sep # join ss, sep # join ps] = sep # join ps"
proof -
  have "resolve_segs cwd [sep # join ss, sep # join ps] = norm_segs False [] (sep # join ps)"
    using resolve_segs_two [OF assms(1,2), of "sep # join ps"] by simp
  also have "\<dots> = ps" using norm_segs_abs_join [OF assms(3), of False "[]"] by simp
  finally show ?thesis using assms(1) by (simp add: path_resolve_segs)
qed

lemma addToIgnoreList_positive:
  "p \<noteq> [] \<Longrightarrow> hd p = sep \<Longrightarrow> q \<noteq> [] \<Longrightarrow> hd q = sep \<Longrightarrow>
   filesToIgnore (addToIgnoreList cwd ff [p, q])
     = filesToIgnore ff @ [resolveWithSourceDir cwd ff p, resolveWithSourceDir cwd ff q]"
  by (simp add: resolveWithSourceDir_def)

lemma FileFilter_artifacts:
  assumes "isAbsolute cwd" and "a \<noteq> []" and "isSubPath cwd (path_resolve cwd [srcDir]) a"
  shows "filesToIgnore (FileFilter cwd base ign srcDir (Some a))
           = filesToIgnore (FileFilter cwd base ign srcDir None)
             @ [sep # join (resolve_segs cwd [a]),
                sep # join (resolve_segs cwd [a] @ [''**'', ''*''])]"
proof -
  let ?ss = "resolve_segs cwd [srcDir]" and ?as = "resolve_segs cwd [a]"
  let ?ff2 = "FileFilter cwd base ign srcDir None"
  have cs: "clean ?ss" and ca: "clean ?as" by (rule clean_resolve_segs)+
  have cg: "clean (?as @ [''**'', ''*''])" using ca by (simp add: clean_simps)
  have sd: "filter_sourceDir ?ff2 = sep # join ?ss"
    using assms(1) by (simp add: FileFilter_sourceDir path_resolve_segs)
  have a': "path_resolve cwd [a] = sep # join ?as"
    using assms(1) by (rule path_resolve_segs)
  have g: "path_join [sep # join ?as, ''**'', ''*''] = sep # join (?as @ [''**'', ''*''])"
    using ca by (rule path_join_glob)
  have r1: "resolveWithSourceDir cwd ?ff2 (sep # join ?as) = sep # join ?as"
    unfolding resolveWithSourceDir_def sd using assms(1) cs ca by (rule resolve_absolute_pattern)
  have r2: "resolveWithSourceDir cwd ?ff2 (sep # join (?as @ [''**'', ''*'']))
              = sep # join (?as @ [''**'', ''*''])"
    unfolding resolveWithSourceDir_def sd using assms(1) cs cg by (rule resolve_absolute_pattern)
  have f: "FileFilter cwd base ign srcDir (Some a)
          = addToIgnoreList cwd ?ff2 [sep # join ?as, sep # join (?as @ [''**'', ''*''])]"
    using assms(2,3) unfolding FileFilter_def Let_def
    by (simp only: a' g option.case if_True simp_thms)
  have "filesToIgnore (addToIgnoreList cwd ?ff2
            [sep # join ?as, sep # join (?as @ [''**'', ''*''])])
          = filesToIgnore ?ff2 @ [resolveWithSourceDir cwd ?ff2 (sep # join ?as),
              resolveWithSourceDir cwd ?ff2 (sep # join (?as @ [''**'', ''*'']))]"
    by (rule addToIgnoreList_positive) simp_all
  then show ?thesis by (simp only: f r1 r2)
qed

lemma resolved_item:
  assumes "isAbsolute cwd"
  shows "resolveWithSourceDir cwd ff filePath
           = sep # join (segments (resolveWithSourceDir cwd ff filePath))"
    and "clean (segments (resolveWithSourceDir cwd ff filePath))"
  using assms
  by (simp_all add: resolveWithSourceDir_def segments_path_resolve clean_resolve_segs
        path_resolve_segs [symmetric])

lemma parse_globs: "parse ''**'' = GLOBSTAR" "parse ''*'' = Wildcard ''*''"
  by (simp_all add: parse_def has_magic_def)

lemma free_of_clean: "clean segs \<Longrightarrow> \<forall>s \<in> set segs. s \<noteq> [] \<and> sep \<notin> set s"
  by (auto simp: clean_def list_all_iff)

lemma FileFilter_split:
  assumes "isAbsolute cwd"
  shows "filesToIgnore (FileFilter cwd base ign srcDir art)
           = filesToIgnore (FileFilter cwd base ign srcDir None)
             @ artifacts_patterns cwd srcDir art"
proof (cases art)
  case None
  then show ?thesis by (simp add: artifacts_patterns_def)
next
  case (Some a)
  show ?thesis
  proof (cases "a \<noteq> [] \<and> isSubPath cwd (path_resolve cwd [srcDir]) a")
    case True
    have ca: "clean (resolve_segs cwd [a])" by (rule clean_resolve_segs)
    have a': "path_resolve cwd [a] = sep # join (resolve_segs cwd [a])"
      using assms by (rule path_resolve_segs)
    have "artifacts_patterns cwd srcDir art
            = [sep # join (resolve_segs cwd [a]),
               sep # join (resolve_segs cwd [a] @ [''**'', ''*''])]"
      using True Some by (simp add: artifacts_patterns_def a' path_join_glob [OF ca])
    then show ?thesis using FileFilter_artifacts [OF assms, of a srcDir base ign] True Some
      by simp
  next
    case False
    then have "FileFilter cwd base ign srcDir (Some a) = FileFilter cwd base ign srcDir None"
      by (auto simp: FileFilter_def Let_def)
    then show ?thesis using False Some by (simp add: artifacts_patterns_def)
  qed
qed

lemma artifacts_patterns_absolute:
  assumes "isAbsolute cwd"
  shows "\<forall>p \<in> set (artifacts_patterns cwd srcDir art). hd p = sep"
proof (cases art)
  case None
  then show ?thesis by (simp add: artifacts_patterns_def)
next
  case (Some a)
  have ca: "clean (resolve_segs cwd [a])" by (rule clean_resolve_segs)
  have a': "path_resolve cwd [a] = sep # join (resolve_segs cwd [a])"
    using assms by (rule path_resolve_segs)
  show ?thesis using Some by (auto simp: artifacts_patterns_def a' path_join_glob [OF ca])
qed

text \<open>
  The failing input of claim C8, with the default patterns. \<open>/proj/art\<close> is a strict
  descendant of \<open>/proj\<close> and a file beneath it is not wanted, as the constructor
  intends; but the file \<open>art/.c/.d\<close> beneath it is wanted. Neither \<open>*\<close> nor \<open>**\<close>
  matches a name that begins with a dot, so the pattern \<open>/proj/art/**/*\<close> matches no
  path with such a name below \<open>/proj/art\<close> (without the base patterns the file
  \<open>art/.d\<close> is wanted as well), and the base patterns for hidden names do not reach a
  hidden name inside a hidden directory. The library is not asked: this holds whatever
  its answers on other patterns are.
\<close>

theorem artifacts_hidden_file_wanted:
  "isSubPath ''/home'' (path_resolve ''/home'' [''/proj'']) ''/proj/art''
   \<and> wantFile lib ''/home''
         (FileFilter ''/home'' baseIgnoredPatterns [] ''/proj'' (Some ''/proj/art''))
         ''art/build/ext.js'' = Inr False
   \<and> wantFile lib ''/home''
         (FileFilter ''/home'' baseIgnoredPatterns [] ''/proj'' (Some ''/proj/art''))
         ''art/.c/.d'' = Inr True
   \<and> wantFile lib ''/home'' (FileFilter ''/home'' [] [] ''/proj'' (Some ''/proj/art''))
         ''art/.d'' = Inr True"
  by code_simp

lemma FileFilter_ignore_last:
  assumes "isAbsolute cwd"
  shows "filesToIgnore (FileFilter cwd base (ign @ [''src/dist/**'', ''!src/dist/keep.js''])
                  srcDir None)
           = filesToIgnore (FileFilter cwd base ign srcDir None)
             @ [sep # join (resolve_segs cwd [srcDir] @ [''src'', ''dist'', ''**'']),
                CHR ''!'' # sep # join (resolve_segs cwd [srcDir] @ [''src'', ''dist'', ''keep.js''])]"
proof -
  let ?ss = "resolve_segs cwd [srcDir]"
  define ffp where "ffp = FileFilter cwd base ign srcDir None"
  have sd: "filter_sourceDir ffp = sep # join ?ss"
    using assms by (simp add: ffp_def FileFilter_sourceDir path_resolve_segs)
  have cs: "clean ?ss" by (rule clean_resolve_segs)
  have n1: "norm_segs False ?ss ''src/dist/**'' = ?ss @ [''src'', ''dist'', ''**'']"
    by (simp add: norm_segs_def norm_step_def)
  have n2: "norm_segs False ?ss ''src/dist/keep.js'' = ?ss @ [''src'', ''dist'', ''keep.js'']"
    by (simp add: norm_segs_def norm_step_def)
  have p1: "resolveWithSourceDir cwd ffp ''src/dist/**''
              = sep # join (?ss @ [''src'', ''dist'', ''**''])"
    unfolding resolveWithSourceDir_def sd
    using resolve_segs_two [OF assms cs, of "''src/dist/**''"] assms
    by (simp add: path_resolve_segs n1)
  have p2: "resolveWithSourceDir cwd ffp ''src/dist/keep.js''
              = sep # join (?ss @ [''src'', ''dist'', ''keep.js''])"
    unfolding resolveWithSourceDir_def sd
    using resolve_segs_two [OF assms cs, of "''src/dist/keep.js''"] assms
    by (simp add: path_resolve_segs n2)
  have f: "FileFilter cwd base (ign @ [''src/dist/**'', ''!src/dist/keep.js'']) srcDir None
          = addToIgnoreList cwd ffp [''src/dist/**'', ''!src/dist/keep.js'']"
    by (simp add: FileFilter_def Let_def ffp_def addToIgnoreList_append)
  have "filesToIgnore (addToIgnoreList cwd ffp [''src/dist/**'', ''!src/dist/keep.js''])
          = filesToIgnore ffp
           @ [resolveWithSourceDir cwd ffp ''src/dist/**'',
              CHR ''!'' # resolveWithSourceDir cwd ffp ''src/dist/keep.js'']"
    by (simp add: resolveWithSourceDir_def)
  then show ?thesis unfolding ffp_def [symmetric] by (simp only: f p1 p2)
qed

text \<open>
  Claim C9, as amended. Let \<open>ignoreFiles\<close> end with \<open>src/dist/**\<close> and then
  \<open>!src/dist/keep.js\<close>, for a source directory that stands for itself at the head of
  a pattern and leaves both patterns within the length the library accepts, with any
  base patterns, any patterns before the two, and any artifacts directory. Take a path
  beneath \<open>src/dist/\<close> on which the filter without the two patterns answers
  \<open>without\<close> (so the library throws on none of the other patterns). Then \<open>wantFile\<close>
  \<^item> is true for \<open>src/dist/keep.js\<close>, unless one of the patterns of the artifacts
    directory, which come after the two, matches it;
  \<^item> is false for every other path none of whose names below \<open>src/dist\<close> begins with
    a dot;
  \<^item> is \<open>without\<close> for a path with a name below \<open>src/dist\<close> that begins with a dot:
    \<open>src/dist/**\<close> does not match it, and the two patterns change nothing.
\<close>

theorem negated_pattern_reincludes:
  assumes "isAbsolute cwd"
    and "self_matching (path_resolve cwd [srcDir])"
    and "length (path_resolve cwd [srcDir] @ ''/src/dist/keep.js'') \<le> 65536"
    and "ff = FileFilter cwd base (ign @ [''src/dist/**'', ''!src/dist/keep.js'']) srcDir art"
    and "item = resolveWithSourceDir cwd ff filePath"
    and "segments item = segments (path_resolve cwd [srcDir]) @ [''src'', ''dist''] @ rest"
    and "rest \<noteq> []"
    and "wantFile lib cwd (FileFilter cwd base ign srcDir art) filePath = Inr without"
  shows "wantFile lib cwd ff filePath =
           Inr (if rest = [''keep.js'']
                then list_all (\<lambda>p. minimatch lib item p \<noteq> Inr True)
                       (artifacts_patterns cwd srcDir art)
                else if list_all (\<lambda>name. \<not> dotty name) rest then False
                else without)"
proof -
  let ?ss = "resolve_segs cwd [srcDir]"
  let ?pre = "?ss @ [''src'', ''dist'']"
  let ?D = "sep # join (?ss @ [''src'', ''dist'', ''**''])"
  let ?K = "sep # join (?ss @ [''src'', ''dist'', ''keep.js''])"
  let ?X = "artifacts_patterns cwd srcDir art"
  let ?P = "filesToIgnore (FileFilter cwd base ign srcDir None)"
  let ?bare = "FileFilter cwd base ign srcDir art"
  have abs: "isAbsolute cwd" by fact
  have cs: "clean ?ss" by (rule clean_resolve_segs)
  have S: "path_resolve cwd [srcDir] = sep # join ?ss" using abs by (rule path_resolve_segs)
  have segs: "segments item = ?pre @ rest"
    using assms(1,6) by (simp add: segments_path_resolve)
  have item: "item = sep # join (?pre @ rest)" and ci: "clean (?pre @ rest)"
    using resolved_item [OF abs, of ff filePath] segs unfolding assms(5) by simp_all
  have item0: "resolveWithSourceDir cwd ?bare filePath = item"
    unfolding assms(5,4) by (simp add: resolveWithSourceDir_def FileFilter_sourceDir)
  text \<open>The patterns of the two filters.\<close>
  have files: "filesToIgnore ff = ?P @ [?D, CHR ''!'' # ?K] @ ?X"
    unfolding assms(4) FileFilter_split [OF abs, of base _ srcDir art]
      FileFilter_ignore_last [OF abs] by simp
  have files0: "filesToIgnore ?bare = ?P @ ?X" using abs by (rule FileFilter_split)
  have xabs: "\<forall>p \<in> set ?X. hd p = sep" using abs by (rule artifacts_patterns_absolute)
  text \<open>The filter without the two patterns returns.\<close>
  from assms(8) obtain ms where
    l0: "multimatch_loop lib item [] (?P @ ?X) = Inr ms" and w: "without = (ms = [])"
    unfolding wantFile_loop item0 files0 by (auto split: sum.splits)
  from l0 obtain acc where
    lP: "multimatch_loop lib item [] ?P = Inr acc" and lX: "multimatch_loop lib item acc ?X = Inr ms"
    unfolding loop_append by (auto split: sum.splits)
  have oacc: "only_item item acc"
    using lP by (rule loop_only_item [rotated]) (simp add: only_item_def)
  text \<open>Both patterns are modelled, and the source directory matches itself.\<close>
  have sm: "list_all (\<lambda>c. \<not> other_syntax c) (sep # join ?ss)"
    and so: "\<forall>s \<in> set ?ss. s \<noteq> ''**'' \<and> \<not> (has_magic s \<and> line_terminator (hd s))"
    using assms(2) unfolding self_matching_def S segments_join [OF cs]
    by (simp_all add: list_all_iff)
  have self: "\<forall>s \<in> set ?ss. s \<noteq> [] \<and> s \<noteq> ''**'' \<and> \<not> (has_magic s \<and> line_terminator (hd s))"
    using so free_of_clean [OF cs] by blast
  have len: "length (sep # join ?ss) + 17 \<le> 65536" using assms(3) unfolding S by simp
  have mD: "modelled (sep # join (?ss @ [''src'', ''dist'', ''**'']))"
    using sm by (rule modelled_under)
      (use len in \<open>simp_all add: js_space_def other_syntax_def\<close>)
  have mK: "modelled (sep # join (?ss @ [''src'', ''dist'', ''keep.js'']))"
    using sm by (rule modelled_under)
      (use len in \<open>simp_all add: js_space_def other_syntax_def\<close>)
  have ne: "?pre @ rest \<noteq> []" by simp
  have fd: "\<forall>s \<in> set (?ss @ [''src'', ''dist'', ''**'']). s \<noteq> [] \<and> sep \<notin> set s"
    using free_of_clean [OF cs] by auto
  have fk: "\<forall>s \<in> set (?ss @ [''src'', ''dist'', ''keep.js'']). s \<noteq> [] \<and> sep \<notin> set s"
    using free_of_clean [OF cs] by auto
  have lit: "parse ''src'' = Literal ''src''" "parse ''dist'' = Literal ''dist''"
    "parse ''keep.js'' = Literal ''keep.js''"
    by (simp_all add: parse_def has_magic_def)
  text \<open>\<open>src/dist/**\<close> matches the paths without a name that begins with a dot.\<close>
  have "minimatch lib item ?D
          = Inr (matchOne (?ss @ ([''src'', ''dist''] @ rest))
                   (map parse ?ss @ [Literal ''src'', Literal ''dist'', GLOBSTAR]))"
    unfolding item using minimatch_resolved [OF ci ne fd _ mD, of lib]
    by (simp add: lit parse_globs)
  also have "matchOne (?ss @ ([''src'', ''dist''] @ rest))
                   (map parse ?ss @ [Literal ''src'', Literal ''dist'', GLOBSTAR])
          = matchOne ([''src'', ''dist''] @ rest) [Literal ''src'', Literal ''dist'', GLOBSTAR]"
    using self by (rule matchOne_self_prefix)
  also have "\<dots> = list_all (\<lambda>x. \<not> dotty x) rest"
    using matchOne_globstar_end [OF assms(7)] by simp
  finally have d: "minimatch lib item ?D = Inr (list_all (\<lambda>x. \<not> dotty x) rest)" .
  text \<open>\<open>src/dist/keep.js\<close> matches that path only.\<close>
  have "minimatch lib item ?K
          = Inr (matchOne (?ss @ ([''src'', ''dist''] @ rest))
                   (map parse ?ss @ map Literal [''src'', ''dist'', ''keep.js'']))"
    unfolding item using minimatch_resolved [OF ci ne fk _ mK, of lib]
    by (simp add: lit)
  also have "matchOne (?ss @ ([''src'', ''dist''] @ rest))
                   (map parse ?ss @ map Literal [''src'', ''dist'', ''keep.js''])
          = matchOne ([''src'', ''dist''] @ rest) (map Literal [''src'', ''dist'', ''keep.js''])"
    using self by (rule matchOne_self_prefix)
  also have "\<dots> = ([''src'', ''dist''] @ rest = [''src'', ''dist'', ''keep.js'']
                    \<or> [''src'', ''dist''] @ rest = [''src'', ''dist'', ''keep.js''] @ [[]])"
    by (rule matchOne_literal)
  also have "\<dots> = (rest = [''keep.js''])"
    using free_of_clean [OF ci] by auto
  finally have k: "minimatch lib item ?K = Inr (rest = [''keep.js''])" .
  text \<open>The loop.\<close>
  define r2 where
    "r2 = (if rest = [''keep.js''] then []
           else if list_all (\<lambda>x. \<not> dotty x) rest then [item] else acc)"
  have or2: "only_item item r2" using oacc by (simp add: r2_def only_item_def)
  have "multimatch_loop lib item acc ([?D, CHR ''!'' # ?K] @ ?X)
          = multimatch_loop lib item
              (if list_all (\<lambda>x. \<not> dotty x) rest then [item] else acc)
              ((CHR ''!'' # ?K) # ?X)"
    using loop_positive [OF oacc _ d] by simp
  also have "\<dots> = multimatch_loop lib item r2 ?X"
    unfolding r2_def
    by (subst loop_negative [OF _ k]) (use oacc in \<open>simp_all add: only_item_def\<close>)
  also have "\<dots> = Inr (if list_all (\<lambda>p. minimatch lib item p \<noteq> Inr True) ?X
                         then r2 else [item])"
    using xabs oacc or2 lX by (rule loop_positive_tail)
  finally have tail: "multimatch_loop lib item acc ([?D, CHR ''!'' # ?K] @ ?X)
      = Inr (if list_all (\<lambda>p. minimatch lib item p \<noteq> Inr True) ?X then r2 else [item])" .
  have whole: "multimatch_loop lib item [] (filesToIgnore ff)
      = Inr (if list_all (\<lambda>p. minimatch lib item p \<noteq> Inr True) ?X then r2 else [item])"
  proof -
    have "multimatch_loop lib item [] (?P @ ([?D, CHR ''!'' # ?K] @ ?X))
            = multimatch_loop lib item acc ([?D, CHR ''!'' # ?K] @ ?X)"
      by (simp only: loop_append [of lib item "[]" ?P] lP sum.case)
    then show ?thesis by (simp only: files tail)
  qed
  have same: "ms = (if list_all (\<lambda>p. minimatch lib item p \<noteq> Inr True) ?X then acc else [item])"
    using loop_positive_tail [OF xabs oacc oacc lX] lX by simp
  have "wantFile lib cwd ff filePath
          = Inr ((if list_all (\<lambda>p. minimatch lib item p \<noteq> Inr True) ?X then r2 else [item]) = [])"
    unfolding wantFile_loop assms(5) [symmetric] whole by simp
  also have "((if list_all (\<lambda>p. minimatch lib item p \<noteq> Inr True) ?X then r2 else [item]) = [])
          = (if rest = [''keep.js'']
                then list_all (\<lambda>p. minimatch lib item p \<noteq> Inr True) ?X
                else if list_all (\<lambda>name. \<not> dotty name) rest then False
                else without)"
    unfolding w same r2_def by simp
  finally show ?thesis .
qed

theorem negated_pattern_reincludes_witness:
  "wantFile no_lib ''/home''
     (FileFilter ''/home'' baseIgnoredPatterns ([] @ [''src/dist/**'', ''!src/dist/keep.js''])
        ''/proj'' (Some ''/proj/out'')) ''src/dist/keep.js'' = Inr True
   \<and> wantFile no_lib ''/home''
     (FileFilter ''/home'' baseIgnoredPatterns ([] @ [''src/dist/**'', ''!src/dist/keep.js''])
        ''/proj'' (Some ''/proj/out'')) ''src/dist/lib/other.js'' = Inr False
   \<and> wantFile no_lib ''/home''
     (FileFilter ''/home'' baseIgnoredPatterns ([] @ [''src/dist/**'', ''!src/dist/keep.js''])
        ''/proj'' (Some ''/proj/out'')) ''src/dist/.cache'' = Inr False"
proof -
  let ?ff = "FileFilter ''/home'' baseIgnoredPatterns
               ([] @ [''src/dist/**'', ''!src/dist/keep.js'']) ''/proj'' (Some ''/proj/out'')"
  let ?bare = "FileFilter ''/home'' baseIgnoredPatterns [] ''/proj'' (Some ''/proj/out'')"
  have 1: "isAbsolute ''/home''" by code_simp
  have 2: "self_matching (path_resolve ''/home'' [''/proj''])" by code_simp
  have 3: "length (path_resolve ''/home'' [''/proj''] @ ''/src/dist/keep.js'') \<le> 65536"
    by (simp add: path_resolve_def normalizeString_def norm_segs_def norm_step_def)
  have 4: "segments (resolveWithSourceDir ''/home'' ?ff ''src/dist/keep.js'')
             = segments (path_resolve ''/home'' [''/proj'']) @ [''src'', ''dist''] @ [''keep.js'']"
    "segments (resolveWithSourceDir ''/home'' ?ff ''src/dist/lib/other.js'')
             = segments (path_resolve ''/home'' [''/proj''])
               @ [''src'', ''dist''] @ [''lib'', ''other.js'']"
    "segments (resolveWithSourceDir ''/home'' ?ff ''src/dist/.cache'')
             = segments (path_resolve ''/home'' [''/proj'']) @ [''src'', ''dist''] @ [''.cache'']"
    by code_simp+
  have 5: "wantFile no_lib ''/home'' ?bare ''src/dist/keep.js'' = Inr True"
    "wantFile no_lib ''/home'' ?bare ''src/dist/lib/other.js'' = Inr True"
    "wantFile no_lib ''/home'' ?bare ''src/dist/.cache'' = Inr False"
    by code_simp+
  have 6: "list_all (\<lambda>p. minimatch no_lib
                 (resolveWithSourceDir ''/home'' ?ff ''src/dist/keep.js'') p \<noteq> Inr True)
             (artifacts_patterns ''/home'' ''/proj'' (Some ''/proj/out''))"
    by code_simp
  have 7: "list_all (\<lambda>name. \<not> dotty name) [''lib'', ''other.js'']"
    "\<not> list_all (\<lambda>name. \<not> dotty name) [''.cache'']"
    by code_simp+
  have a: "wantFile no_lib ''/home'' ?ff ''src/dist/keep.js'' = Inr True"
    using negated_pattern_reincludes
            [where cwd = "''/home''" and srcDir = "''/proj''" and base = baseIgnoredPatterns
               and ign = "[]" and art = "Some ''/proj/out''" and ff = "?ff" and lib = no_lib
               and item = "resolveWithSourceDir ''/home'' ?ff ''src/dist/keep.js''"
               and filePath = "''src/dist/keep.js''" and rest = "[''keep.js'']" and without = True,
             OF 1 2 3 refl refl 4(1) _ 5(1)] 6
    by simp
  have b: "wantFile no_lib ''/home'' ?ff ''src/dist/lib/other.js'' = Inr False"
    using negated_pattern_reincludes
            [where cwd = "''/home''" and srcDir = "''/proj''" and base = baseIgnoredPatterns
               and ign = "[]" and art = "Some ''/proj/out''" and ff = "?ff" and lib = no_lib
               and item = "resolveWithSourceDir ''/home'' ?ff ''src/dist/lib/other.js''"
               and filePath = "''src/dist/lib/other.js''" and rest = "[''lib'', ''other.js'']" and without = True,
             OF 1 2 3 refl refl 4(2) _ 5(2)] 7(1)
    by simp
  have c: "wantFile no_lib ''/home'' ?ff ''src/dist/.cache'' = Inr False"
    using negated_pattern_reincludes
            [where cwd = "''/home''" and srcDir = "''/proj''" and base = baseIgnoredPatterns
               and ign = "[]" and art = "Some ''/proj/out''" and ff = "?ff" and lib = no_lib
               and item = "resolveWithSourceDir ''/home'' ?ff ''src/dist/.cache''"
               and filePath = "''src/dist/.cache''" and rest = "[''.cache'']" and without = False,
             OF 1 2 3 refl refl 4(3) _ 5(3)] 7(2)
    by simp
  from a b c show ?thesis by (simp only: simp_thms)
qed

text \<open>
  The source directory becomes the head of every pattern as it is. Under a directory
  named \<open>**\<close> the pattern \<open>!src/dist/keep.js\<close> matches more than one path, and a
  file other than \<open>src/dist/keep.js\<close> is wanted.
\<close>

lemma source_directory_read_as_pattern:
  "\<not> self_matching (path_resolve ''/home'' [''/proj/**''])
   \<and> wantFile lib ''/home''
     (FileFilter ''/home'' baseIgnoredPatterns [''src/dist/**'', ''!src/dist/keep.js'']
        ''/proj/**'' None)
     ''src/dist/lib/src/dist/keep.js'' = Inr True"
  by code_simp

text \<open>
  Claim C9 as first stated fails. The base patterns are an option of the constructor:
  with none, \<open>src/dist/.cache\<close> is a file beneath \<open>src/dist/\<close> other than \<open>keep.js\<close>
  and it is wanted, because \<open>**\<close> matches no name that begins with a dot. And the
  patterns of the artifacts directory come last: with \<open>src/dist\<close> as artifacts
  directory, \<open>src/dist/keep.js\<close> is not wanted.
\<close>

theorem dist_file_other_than_keep_wanted:
  "wantFile no_lib ''/home''
     (FileFilter ''/home'' [] [''src/dist/**'', ''!src/dist/keep.js''] ''/proj'' None)
     ''src/dist/.cache'' = Inr True
   \<and> wantFile no_lib ''/home''
     (FileFilter ''/home'' baseIgnoredPatterns [''src/dist/**'', ''!src/dist/keep.js'']
        ''/proj'' (Some ''/proj/src/dist''))
     ''src/dist/keep.js'' = Inr False"
  by code_simp

end
